theory Spec2Isabelle
  imports Main "HOL-Library.Word"
begin

unbundle bit_operations_syntax

section \<open>Data model\<close>

text \<open>
  The codec of \<^verbatim>\<open>src/unnamed/part_000\<close> (second file, magic \<^verbatim>\<open>BAB2\<close>), embedded
  function by function.  Go's \<^verbatim>\<open>int\<close> is modelled as \<open>int\<close>: every value the codec
  computes with is bounded by the pixel count of the raster, far below 64 bits.
  \<^verbatim>\<open>uint8\<close> and \<^verbatim>\<open>uint16\<close> values are words, so conversions wrap as in Go.
\<close>

type_synonym byte = "8 word"

text \<open>\<^verbatim>\<open>color.RGBA\<close>.\<close>

datatype rgba = RGBA (colR: byte) (colG: byte) (colB: byte) (colA: byte)

text \<open>
  \<^verbatim>\<open>*image.RGBA\<close> as produced by \<^verbatim>\<open>toRGBA\<close> and \<^verbatim>\<open>image.NewRGBA(image.Rect(0, 0, w, h))\<close>:
  the bounds start at (0,0), the pixels are stored row by row.
\<close>

record raster =
  rw :: nat
  rh :: nat
  pix :: "rgba list"

definition wf_raster :: "raster \<Rightarrow> bool" where
  "wf_raster img = (length (pix img) = rw img * rh img)"

definition NewRGBA :: "nat \<Rightarrow> nat \<Rightarrow> raster" where
  "NewRGBA w h = \<lparr>rw = w, rh = h, pix = replicate (w * h) (RGBA 0 0 0 0)\<rparr>"

text \<open>The test \<^verbatim>\<open>px < b.Min.X || py < b.Min.Y || px >= b.Max.X || py >= b.Max.Y\<close>, negated.\<close>

definition inBounds :: "raster \<Rightarrow> int \<Rightarrow> int \<Rightarrow> bool" where
  "inBounds img px py = (\<not> (px < 0 \<or> py < 0 \<or> px \<ge> int (rw img) \<or> py \<ge> int (rh img)))"

definition pixOffset :: "raster \<Rightarrow> int \<Rightarrow> int \<Rightarrow> nat" where
  "pixOffset img px py = nat (py * int (rw img) + px)"

text \<open>\<^verbatim>\<open>RGBAAt\<close> returns the zero colour outside the bounds; \<^verbatim>\<open>SetRGBA\<close> ignores such a write.\<close>

definition RGBAAt :: "raster \<Rightarrow> int \<Rightarrow> int \<Rightarrow> rgba" where
  "RGBAAt img px py =
     (if inBounds img px py then pix img ! pixOffset img px py else RGBA 0 0 0 0)"

definition SetRGBA :: "raster \<Rightarrow> int \<Rightarrow> int \<Rightarrow> rgba \<Rightarrow> raster" where
  "SetRGBA img px py c =
     (if inBounds img px py then img\<lparr>pix := (pix img)[pixOffset img px py := c]\<rparr> else img)"

text \<open>\<^verbatim>\<open>luma\<close>: Rec. 601 weights in \<^verbatim>\<open>int32\<close>; the sum is at most 255500, so nothing wraps.\<close>

definition luma :: "rgba \<Rightarrow> int" where
  "luma c = (299 * uint (colR c) + 587 * uint (colG c) + 114 * uint (colB c) + 500) div 1000"

section \<open>Edge smoother\<close>

text \<open>The eight neighbours, in the order of the slice \<^verbatim>\<open>neigh\<close>.\<close>

definition neigh :: "int \<Rightarrow> int \<Rightarrow> (int \<times> int) list" where
  "neigh x y = [(x - 1, y), (x + 1, y), (x, y - 1), (x, y + 1),
                (x - 1, y - 1), (x + 1, y - 1), (x - 1, y + 1), (x + 1, y + 1)]"

text \<open>One iteration of the first loop over \<^verbatim>\<open>neigh\<close>; the state is \<^verbatim>\<open>(edge, maxDl)\<close>.\<close>

definition edgeStep :: "raster \<Rightarrow> int \<Rightarrow> int \<Rightarrow> int \<times> int \<Rightarrow> bool \<times> int \<Rightarrow> bool \<times> int" where
  "edgeStep src tol lc p st =
     (case p of (px, py) \<Rightarrow> case st of (edge, maxDl) \<Rightarrow>
        if \<not> inBounds src px py then (edge, maxDl)
        else
          let ln = luma (RGBAAt src px py);
              dl = ln - lc;
              dl = (if dl < 0 then - dl else dl);
              maxDl = (if dl > maxDl then dl else maxDl);
              edge = (if dl > tol * 2 then True else edge)
          in (edge, maxDl))"

text \<open>One iteration of the second loop; the state is \<^verbatim>\<open>(sumNR, sumNG, sumNB, nCount)\<close>.\<close>

definition sumStep :: "raster \<Rightarrow> int \<times> int \<Rightarrow> int \<times> int \<times> int \<times> int \<Rightarrow> int \<times> int \<times> int \<times> int" where
  "sumStep src p st =
     (case p of (px, py) \<Rightarrow> case st of (sumNR, sumNG, sumNB, nCount) \<Rightarrow>
        if \<not> inBounds src px py then (sumNR, sumNG, sumNB, nCount)
        else
          let nc = RGBAAt src px py
          in (sumNR + uint (colR nc), sumNG + uint (colG nc), sumNB + uint (colB nc), nCount + 1))"

text \<open>
  The blend weight in tenths: 0.4, 0.3 or 0.1.  The blended channel itself,
  \<^verbatim>\<open>uint8(float64(c)*(1-alpha) + float64(sum)/float64(n)*alpha + 0.5)\<close>, is float64
  arithmetic; the model takes it as the parameter \<open>mix\<close> (weight in tenths, channel,
  neighbour sum, neighbour count).
\<close>

definition alphaTenths :: "int \<Rightarrow> int \<Rightarrow> nat" where
  "alphaTenths maxDl tol = (if maxDl < tol * 3 then 4 else if maxDl < tol * 5 then 3 else 1)"

type_synonym mixfn = "nat \<Rightarrow> byte \<Rightarrow> int \<Rightarrow> int \<Rightarrow> byte"

text \<open>The body of the two nested loops of \<^verbatim>\<open>smoothEdges\<close>: the colour written at (x,y).\<close>

definition smoothPixel :: "mixfn \<Rightarrow> raster \<Rightarrow> int \<Rightarrow> int \<Rightarrow> int \<Rightarrow> rgba" where
  "smoothPixel mix src tol x y =
     (let c = RGBAAt src x y;
          lc = luma c;
          (edge, maxDl) = fold (edgeStep src tol lc) (neigh x y) (False, 0)
      in if \<not> edge then c
         else
           let (sumNR, sumNG, sumNB, nCount) = fold (sumStep src) (neigh x y) (0, 0, 0, 0)
           in if nCount = 0 then c
              else
                let a = alphaTenths maxDl tol
                in RGBA (mix a (colR c) sumNR nCount) (mix a (colG c) sumNG nCount)
                        (mix a (colB c) sumNB nCount) 255)"

definition smoothEdges :: "mixfn \<Rightarrow> raster \<Rightarrow> int \<Rightarrow> raster" where
  "smoothEdges mix src tol =
     fold (\<lambda>y dst. fold (\<lambda>x dst. SetRGBA dst (int x) (int y) (smoothPixel mix src tol (int x) (int y)))
                         [0..<rw src] dst)
          [0..<rh src] (NewRGBA (rw src) (rh src))"

section \<open>Parameters and errors\<close>

text \<open>
  Every error value the codec returns, and the two run-time panics its code can raise
  (an integer division by zero, an index out of range).  \<open>ErrZstd\<close> stands for any
  error of the zstd reader.
\<close>

datatype error =
    ErrInvalidMagic
  | ErrEOF
  | ErrUnexpectedEOF
  | ErrZstd
  | ErrTruncatedPayload
  | ErrEncodePaletteSize nat
  | ErrBuildPalettesExceeded nat
  | ErrPatternOverflow
  | ErrLeafIndexOverflow
  | ErrInconsistentPattern
  | ErrPaletteIdRange int
  | ErrLocalIndexRange int int
  | PanicDivideByZero
  | PanicIndexOutOfRange

text \<open>Go's \<^verbatim>\<open>/\<close> on \<^verbatim>\<open>int\<close> truncates towards zero.\<close>

definition goDiv :: "int \<Rightarrow> int \<Rightarrow> int" where
  "goDiv a b = sgn a * sgn b * (\<bar>a\<bar> div \<bar>b\<bar>)"

record codec2Params =
  minBlock :: int
  maxGrad :: int
  colorTol :: int

text \<open>
  \<^verbatim>\<open>paramsForQuality\<close>.  \<^verbatim>\<open>int(float64(qi)*(12.0/100.0))\<close> is written with exact integers:
  for \<open>qi\<close> in 0..99 the float64 product rounds to the exact value where \<open>qi * 12 / 100\<close>
  is an integer (25, 50, 75) and is at least 0.04 away from an integer elsewhere.
  The \<^verbatim>\<open>fmt.Printf\<close> is not modelled.
\<close>

definition paramsForQuality :: "int \<Rightarrow> codec2Params" where
  "paramsForQuality q0 =
     (let q = (if q0 < 1 then 1 else q0);
          q = (if q > 100 then 100 else q);
          qi = 100 - q
      in \<lparr>minBlock = 1, maxGrad = 1 + qi, colorTol = 1 + (qi * 12) div 100\<rparr>)"

section \<open>Stripes\<close>

record stripeInfo =
  sy :: int
  sh :: int

text \<open>
  \<^verbatim>\<open>splitStripes\<close>.  The package variable \<^verbatim>\<open>encoderStripes = runtime.NumCPU()\<close> is the
  first argument: it is a property of the host the code runs on.
\<close>

definition stripeStep :: "int \<Rightarrow> int \<Rightarrow> nat \<Rightarrow> stripeInfo list \<times> int \<Rightarrow> stripeInfo list \<times> int" where
  "stripeStep base rem i st =
     (case st of (stripes, y) \<Rightarrow>
        let h = base;
            h = (if int i < rem then h + 1 else h)
        in (stripes @ [\<lparr>sy = y, sh = h\<rparr>], y + h))"

definition splitStripes :: "int \<Rightarrow> int \<Rightarrow> int \<Rightarrow> error + stripeInfo list" where
  "splitStripes encoderStripes totalH minBlk =
     (if totalH \<le> 0 then Inr [\<lparr>sy = 0, sh = 0\<rparr>]
      else
        let n = encoderStripes;
            n = (if n < 1 then 1 else n)
        in if minBlk = 0 then Inl PanicDivideByZero
           else
             let maxByHeight = goDiv totalH minBlk;
                 maxByHeight = (if maxByHeight < 1 then 1 else maxByHeight);
                 n = (if n > maxByHeight then maxByHeight else n)
             in if n = 1 then Inr [\<lparr>sy = 0, sh = totalH\<rparr>]
                else
                  let base = goDiv totalH n;
                      rem = totalH - n * goDiv totalH n
                  in Inr (fst (fold (stripeStep base rem) [0..<nat n] ([], 0))))"

section \<open>Block classifier\<close>

text \<open>The variables of the scan of \<^verbatim>\<open>analyzeBlock\<close>.\<close>

record blockAcc =
  minL :: int
  maxL :: int
  minLBorder :: int
  maxLBorder :: int
  minLInner :: int
  maxLInner :: int
  haveBorder :: bool
  haveInner :: bool
  sumR :: int
  sumG :: int
  sumB :: int
  count :: int

definition blockAcc0 :: blockAcc where
  "blockAcc0 = \<lparr>minL = 255, maxL = 0, minLBorder = 255, maxLBorder = 0,
                 minLInner = 255, maxLInner = 0, haveBorder = False, haveInner = False,
                 sumR = 0, sumG = 0, sumB = 0, count = 0\<rparr>"

text \<open>
  The body of the inner loop, at offset \<open>(xx, yy)\<close> of the block, in its four parts: the
  total range, the border range, the inner range, the sums.
\<close>

definition stepTotal :: "int \<Rightarrow> blockAcc \<Rightarrow> blockAcc" where
  "stepTotal l a =
     (let a = (if l < minL a then a\<lparr>minL := l\<rparr> else a)
      in (if l > maxL a then a\<lparr>maxL := l\<rparr> else a))"

definition stepBorder :: "int \<Rightarrow> blockAcc \<Rightarrow> blockAcc" where
  "stepBorder l a =
     (let a = (if l < minLBorder a then a\<lparr>minLBorder := l\<rparr> else a);
          a = (if l > maxLBorder a then a\<lparr>maxLBorder := l\<rparr> else a)
      in a\<lparr>haveBorder := True\<rparr>)"

definition stepInner :: "int \<Rightarrow> blockAcc \<Rightarrow> blockAcc" where
  "stepInner l a =
     (let a = (if l < minLInner a then a\<lparr>minLInner := l\<rparr> else a);
          a = (if l > maxLInner a then a\<lparr>maxLInner := l\<rparr> else a)
      in a\<lparr>haveInner := True\<rparr>)"

definition stepSums :: "rgba \<Rightarrow> blockAcc \<Rightarrow> blockAcc" where
  "stepSums c a =
     a\<lparr>sumR := sumR a + uint (colR c), sumG := sumG a + uint (colG c),
       sumB := sumB a + uint (colB c), count := count a + 1\<rparr>"

definition analyzeStep :: "raster \<Rightarrow> int \<Rightarrow> int \<Rightarrow> int \<Rightarrow> int \<Rightarrow> int \<Rightarrow> int \<Rightarrow> blockAcc \<Rightarrow> blockAcc" where
  "analyzeStep img x y w h yy xx a =
     (let px = x + xx; py = y + yy
      in if \<not> inBounds img px py then a
         else
           let c = RGBAAt img px py;
               l = luma c;
               a = stepTotal l a;
               isBorder = (xx = 0 \<or> yy = 0 \<or> xx = w - 1 \<or> yy = h - 1);
               a = (if isBorder then stepBorder l a else stepInner l a)
           in stepSums c a)"

definition analyzeScan :: "raster \<Rightarrow> int \<Rightarrow> int \<Rightarrow> int \<Rightarrow> int \<Rightarrow> blockAcc" where
  "analyzeScan img x y w h =
     fold (\<lambda>yy a. fold (\<lambda>xx a. analyzeStep img x y w h (int yy) (int xx) a) [0..<nat w] a)
          [0..<nat h] blockAcc0"

text \<open>The offsets \<open>(yy, xx)\<close> the two loops of the scan visit, in order.\<close>

definition blockOffsets :: "int \<Rightarrow> int \<Rightarrow> (nat \<times> nat) list" where
  "blockOffsets w h = concat (map (\<lambda>yy. map (Pair yy) [0..<nat w]) [0..<nat h])"

text \<open>\<^verbatim>\<open>analyzeBlock\<close>: total, border and inner energy, and the average colour.\<close>

definition analyzeBlock :: "raster \<Rightarrow> int \<Rightarrow> int \<Rightarrow> int \<Rightarrow> int \<Rightarrow> int \<times> int \<times> int \<times> rgba" where
  "analyzeBlock img x y w h =
     (let a = analyzeScan img x y w h
      in if count a = 0 then (0, 0, 0, RGBA 0 0 0 255)
         else
           (maxL a - minL a,
            (if haveBorder a then maxLBorder a - minLBorder a else 0),
            (if haveInner a then maxLInner a - minLInner a else 0),
            RGBA (word_of_int (goDiv (sumR a) (count a))) (word_of_int (goDiv (sumG a) (count a)))
                 (word_of_int (goDiv (sumB a) (count a))) 255))"

text \<open>\<^verbatim>\<open>leafColor\<close> is a struct of one field, the colour.\<close>

type_synonym leafColor = rgba

text \<open>The flag \<^verbatim>\<open>edgeDominated\<close> of \<^verbatim>\<open>collectRegionColors\<close>, with its two nested tests.\<close>

definition edgeDominated :: "codec2Params \<Rightarrow> int \<Rightarrow> int \<Rightarrow> int \<Rightarrow> int \<Rightarrow> bool" where
  "edgeDominated params w h borderEnergy innerEnergy =
     (if borderEnergy > 0 \<and> innerEnergy > 0
      then (if borderEnergy \<ge> innerEnergy * 2 \<and> (w > minBlock params * 2 \<or> h > minBlock params * 2)
            then True else False)
      else False)"

text \<open>
  \<^verbatim>\<open>collectRegionColors\<close>.  The state is the pair of slices \<^verbatim>\<open>(*leaves, *pattern)\<close>.
  Every \<^verbatim>\<open>return\<close> of the Go function gives \<^verbatim>\<open>nil\<close> or hands on the error of a recursive
  call, so no error value arises; a recursion that did not end is \<open>None\<close>.
\<close>

partial_function (option) collectRegionColors ::
  "raster \<Rightarrow> int \<Rightarrow> int \<Rightarrow> int \<Rightarrow> int \<Rightarrow> codec2Params \<Rightarrow> leafColor list \<times> bool list
     \<Rightarrow> (leafColor list \<times> bool list) option" where
  "collectRegionColors img x y w h params st =
     (case st of (leaves, pattern) \<Rightarrow>
        if w \<le> minBlock params \<and> h \<le> minBlock params
        then (case analyzeBlock img x y w h of (_, _, _, avg) \<Rightarrow>
                Some (leaves @ [avg], pattern @ [True]))
        else
          (case analyzeBlock img x y w h of (energy, borderEnergy, innerEnergy, avg) \<Rightarrow>
             if energy = 0 then Some (leaves @ [avg], pattern @ [True])
             else if \<not> edgeDominated params w h borderEnergy innerEnergy \<and> energy \<le> maxGrad params
                     \<and> w \<le> 4 * minBlock params \<and> h \<le> 4 * minBlock params
             then Some (leaves @ [avg], pattern @ [True])
             else if w \<ge> h \<and> goDiv w 2 \<ge> minBlock params
             then
               (let w1 = goDiv w 2; w2 = w - w1
                in Option.bind (collectRegionColors img x y w1 h params (leaves, pattern @ [False]))
                     (\<lambda>st. collectRegionColors img (x + w1) y w2 h params st))
             else
               (let h1 = goDiv h 2; h2 = h - h1
                in if h1 < minBlock params
                   then (case analyzeBlock img x y w h of (_, _, _, avg) \<Rightarrow>
                           Some (leaves @ [avg], pattern @ [True]))
                   else Option.bind (collectRegionColors img x y w h1 params (leaves, pattern @ [False]))
                          (\<lambda>st. collectRegionColors img x (y + h1) w h2 params st))))"

declare collectRegionColors.simps [code]

text \<open>
  \<^verbatim>\<open>collectRegionColorsStriped\<close>.  The goroutines work on disjoint stripes with slices of
  their own and are joined before the results are read, so running them one after the
  other gives the same result.
\<close>

fun collectStripes :: "raster \<Rightarrow> int \<Rightarrow> codec2Params \<Rightarrow> stripeInfo list
     \<Rightarrow> (leafColor list \<times> bool list) option" where
  "collectStripes img w params [] = Some ([], [])"
| "collectStripes img w params (s # ss) =
     Option.bind (collectRegionColors img 0 (sy s) w (sh s) params ([], []))
       (\<lambda>r. Option.bind (collectStripes img w params ss)
          (\<lambda>rs. Some (fst r @ fst rs, snd r @ snd rs)))"

definition collectRegionColorsStriped ::
  "int \<Rightarrow> raster \<Rightarrow> codec2Params \<Rightarrow> (error + leafColor list \<times> bool list) option" where
  "collectRegionColorsStriped encoderStripes img params =
     (let w = int (rw img); h = int (rh img)
      in case splitStripes encoderStripes h (minBlock params) of
           Inl e \<Rightarrow> Some (Inl e)
         | Inr stripes \<Rightarrow>
             if length stripes = 1
             then map_option Inr (collectRegionColors img 0 0 w h params ([], []))
             else map_option Inr (collectStripes img w params stripes))"

section \<open>Palette builder\<close>

definition closeColor :: "rgba \<Rightarrow> rgba \<Rightarrow> int \<Rightarrow> bool" where
  "closeColor a b tol =
     (let dr = uint (colR a) - uint (colR b);
          dr = (if dr < 0 then - dr else dr);
          dg = uint (colG a) - uint (colG b);
          dg = (if dg < 0 then - dg else dg);
          db = uint (colB a) - uint (colB b);
          db = (if db < 0 then - db else db)
      in dr \<le> tol \<and> dg \<le> tol \<and> db \<le> tol)"

record leafRef =
  pal :: "16 word"
  idx :: "8 word"

text \<open>\<^verbatim>\<open>palette\<close> is a struct of one field, the slice \<^verbatim>\<open>colors\<close>.\<close>

type_synonym palette = "rgba list"

text \<open>The scan for a close colour: the first index \<open>j\<close> that matches, or \<open>-1\<close>.\<close>

fun findClose :: "leafColor \<Rightarrow> int \<Rightarrow> int \<Rightarrow> rgba list \<Rightarrow> int" where
  "findClose lf tol j [] = - 1"
| "findClose lf tol j (pc # pcs) =
     (if closeColor lf pc tol then j else findClose lf tol (j + 1) pcs)"

text \<open>
  The body of the loop of \<^verbatim>\<open>buildPalettes\<close> at leaf \<open>i\<close>; the state is
  \<^verbatim>\<open>(pals, refs, curPalID)\<close>.  \<^verbatim>\<open>pals[curPalID]\<close> is in range: \<open>curPalID\<close> is the index of
  the last palette.
\<close>

definition buildPalettesStep :: "codec2Params \<Rightarrow> nat \<Rightarrow> leafColor
     \<Rightarrow> palette list \<times> leafRef list \<times> nat \<Rightarrow> error + palette list \<times> leafRef list \<times> nat" where
  "buildPalettesStep params i lf st =
     (case st of (pals, refs, curPalID) \<Rightarrow>
        let (pals, curPalID) =
              (if i > 0 \<and> i mod 256 = 0 then (pals @ [[]], curPalID + 1) else (pals, curPalID));
            p = pals ! curPalID;
            found = findClose lf (colorTol params) 0 p
        in if found < 0
           then
             if length p \<ge> 256 then Inl (ErrBuildPalettesExceeded curPalID)
             else
               Inr (pals[curPalID := p @ [lf]],
                    refs[i := \<lparr>pal = word_of_nat curPalID, idx = word_of_nat (length p)\<rparr>],
                    curPalID)
           else
             Inr (pals, refs[i := \<lparr>pal = word_of_nat curPalID, idx = word_of_int found\<rparr>], curPalID))"

text \<open>The loop from leaf \<open>i\<close> on.\<close>

fun buildPalettesLoop :: "codec2Params \<Rightarrow> nat \<Rightarrow> leafColor list
     \<Rightarrow> palette list \<times> leafRef list \<times> nat \<Rightarrow> error + palette list \<times> leafRef list \<times> nat" where
  "buildPalettesLoop params i [] st = Inr st"
| "buildPalettesLoop params i (lf # rest) st =
     (case buildPalettesStep params i lf st of
        Inl e \<Rightarrow> Inl e
      | Inr st \<Rightarrow> buildPalettesLoop params (i + 1) rest st)"

definition buildPalettes :: "leafColor list \<Rightarrow> codec2Params \<Rightarrow> error + palette list \<times> leafRef list" where
  "buildPalettes leaves params =
     (if length leaves = 0 then Inr ([], [])
      else
        case buildPalettesLoop params 0 leaves
               ([[]], replicate (length leaves) \<lparr>pal = 0, idx = 0\<rparr>, 0) of
          Inl e \<Rightarrow> Inl e
        | Inr (pals, refs, curPalID) \<Rightarrow> Inr (pals, refs))"

section \<open>Bit I/O\<close>

text \<open>
  \<^verbatim>\<open>BitWriter\<close>: the \<^verbatim>\<open>bytes.Buffer\<close> written to is the byte list \<open>wbuf\<close> (a write to it
  never fails, so \<^verbatim>\<open>WriteBit\<close>, \<^verbatim>\<open>WriteByte\<close> and \<^verbatim>\<open>Flush\<close> return the new writer).
  \<^verbatim>\<open>nbit\<close> stays in 0..7 between calls, so the \<^verbatim>\<open>uint8\<close> never wraps.
\<close>

record BitWriter =
  wbuf :: "byte list"
  wacc :: byte
  wnbit :: nat

definition NewBitWriter :: "byte list \<Rightarrow> BitWriter" where
  "NewBitWriter b = \<lparr>wbuf = b, wacc = 0, wnbit = 0\<rparr>"

definition WriteBit :: "BitWriter \<Rightarrow> bool \<Rightarrow> BitWriter" where
  "WriteBit bw v =
     (let bw = (if v then bw\<lparr>wacc := wacc bw OR push_bit (7 - wnbit bw) 1\<rparr> else bw);
          bw = bw\<lparr>wnbit := wnbit bw + 1\<rparr>
      in if wnbit bw = 8 then bw\<lparr>wbuf := wbuf bw @ [wacc bw], wacc := 0, wnbit := 0\<rparr> else bw)"

definition WriteByte :: "BitWriter \<Rightarrow> byte \<Rightarrow> BitWriter" where
  "WriteByte bw b =
     (if wnbit bw = 0 then bw\<lparr>wbuf := wbuf bw @ [b]\<rparr>
      else fold (\<lambda>i bw. WriteBit bw ((b AND push_bit (7 - i) 1) \<noteq> 0)) [0..<8] bw)"

definition Flush :: "BitWriter \<Rightarrow> BitWriter" where
  "Flush bw =
     (if wnbit bw = 0 then bw
      else bw\<lparr>wbuf := wbuf bw @ [wacc bw], wacc := 0, wnbit := 0\<rparr>)"

record BitReader =
  rdata :: "byte list"
  rpos :: nat
  racc :: byte
  rnbit :: nat

definition NewBitReaderFromBytes :: "byte list \<Rightarrow> BitReader" where
  "NewBitReaderFromBytes b = \<lparr>rdata = b, rpos = 0, racc = 0, rnbit = 0\<rparr>"

definition ReadBit :: "BitReader \<Rightarrow> error + bool \<times> BitReader" where
  "ReadBit br =
     (if rnbit br = 0 \<and> rpos br \<ge> length (rdata br) then Inl ErrEOF
      else
        let br = (if rnbit br = 0 then br\<lparr>racc := rdata br ! rpos br, rpos := rpos br + 1\<rparr> else br);
            bitv = ((racc br AND push_bit (7 - rnbit br) 1) \<noteq> 0);
            br = br\<lparr>rnbit := rnbit br + 1\<rparr>;
            br = (if rnbit br = 8 then br\<lparr>rnbit := 0\<rparr> else br)
        in Inr (bitv, br))"

text \<open>The loop of \<^verbatim>\<open>ReadByte\<close> off a byte boundary, over the remaining indices \<open>i\<close>.\<close>

fun ReadByteLoop :: "nat list \<Rightarrow> byte \<Rightarrow> BitReader \<Rightarrow> error + byte \<times> BitReader" where
  "ReadByteLoop [] b br = Inr (b, br)"
| "ReadByteLoop (i # is) b br =
     (case ReadBit br of
        Inl e \<Rightarrow> Inl e
      | Inr (bitv, br) \<Rightarrow> ReadByteLoop is (if bitv then b OR push_bit (7 - i) 1 else b) br)"

definition ReadByte :: "BitReader \<Rightarrow> error + byte \<times> BitReader" where
  "ReadByte br =
     (if rnbit br = 0
      then (if rpos br \<ge> length (rdata br) then Inl ErrEOF
            else Inr (rdata br ! rpos br, br\<lparr>rpos := rpos br + 1\<rparr>))
      else ReadByteLoop [0..<8] 0 br)"

section \<open>Recursive region encode and decode\<close>

definition encodeLeaf :: "BitWriter \<Rightarrow> byte \<Rightarrow> BitWriter" where
  "encodeLeaf bw local = WriteByte (WriteBit bw True) local"

text \<open>
  \<^verbatim>\<open>encodeRegion\<close>; the state is \<^verbatim>\<open>(bw, *leafPos, *patPos)\<close>.  The parameter \<^verbatim>\<open>img\<close> of the
  Go function is not used by it and is left out.
\<close>

partial_function (option) encodeRegion ::
  "int \<Rightarrow> int \<Rightarrow> int \<Rightarrow> int \<Rightarrow> codec2Params \<Rightarrow> byte list \<Rightarrow> bool list
     \<Rightarrow> BitWriter \<times> nat \<times> nat \<Rightarrow> (error + BitWriter \<times> nat \<times> nat) option" where
  "encodeRegion x y w h params leafLocal pattern st =
     (case st of (bw, leafPos, patPos) \<Rightarrow>
        if patPos \<ge> length pattern then Some (Inl ErrPatternOverflow)
        else
          let isLeaf = pattern ! patPos;
              patPos = patPos + 1
          in if isLeaf
             then (if leafPos \<ge> length leafLocal then Some (Inl ErrLeafIndexOverflow)
                   else Some (Inr (encodeLeaf bw (leafLocal ! leafPos), leafPos + 1, patPos)))
             else
               let bw = WriteBit bw False
               in if w \<ge> h \<and> goDiv w 2 \<ge> minBlock params
                  then
                    (let w1 = goDiv w 2; w2 = w - w1
                     in Option.bind (encodeRegion x y w1 h params leafLocal pattern (bw, leafPos, patPos))
                          (\<lambda>r. case r of
                                  Inl e \<Rightarrow> Some (Inl e)
                                | Inr st \<Rightarrow> encodeRegion (x + w1) y w2 h params leafLocal pattern st))
                  else
                    (let h1 = goDiv h 2; h2 = h - h1
                     in if h1 < minBlock params then Some (Inl ErrInconsistentPattern)
                        else Option.bind (encodeRegion x y w h1 params leafLocal pattern (bw, leafPos, patPos))
                               (\<lambda>r. case r of
                                       Inl e \<Rightarrow> Some (Inl e)
                                     | Inr st \<Rightarrow> encodeRegion x (y + h1) w h2 params leafLocal pattern st)))"

declare encodeRegion.simps [code]

record leafJob =
  jx :: int
  jy :: int
  jw :: int
  jh :: int
  jpal :: int
  jidx :: int

text \<open>
  The leaf body of \<^verbatim>\<open>decodeRegionJobs\<close>: read the local index, find the palette from the
  leaf counter, check both, append the job.  The Go function has these lines twice, after
  a leaf bit and in the fallback for a node that cannot be split.
\<close>

definition decodeLeafJob :: "int \<Rightarrow> int \<Rightarrow> int \<Rightarrow> int \<Rightarrow> rgba list list
     \<Rightarrow> BitReader \<times> int \<times> leafJob list \<Rightarrow> error + BitReader \<times> int \<times> leafJob list" where
  "decodeLeafJob x y w h palettes st =
     (case st of (br, leafCounter, jobs) \<Rightarrow>
        case ReadByte br of
          Inl e \<Rightarrow> Inl e
        | Inr (b, br) \<Rightarrow>
            let palID = goDiv leafCounter 256
            in if palID < 0 \<or> palID \<ge> int (length palettes) then Inl (ErrPaletteIdRange palID)
               else
                 let local = uint b
                 in if local < 0 \<or> local \<ge> int (length (palettes ! nat palID))
                    then Inl (ErrLocalIndexRange local palID)
                    else Inr (br, leafCounter + 1,
                              jobs @ [\<lparr>jx = x, jy = y, jw = w, jh = h, jpal = palID, jidx = local\<rparr>]))"

text \<open>\<^verbatim>\<open>decodeRegionJobs\<close>; the state is \<^verbatim>\<open>(br, *leafCounter, *jobs)\<close>.\<close>

partial_function (option) decodeRegionJobs ::
  "int \<Rightarrow> int \<Rightarrow> int \<Rightarrow> int \<Rightarrow> codec2Params \<Rightarrow> rgba list list
     \<Rightarrow> BitReader \<times> int \<times> leafJob list \<Rightarrow> (error + BitReader \<times> int \<times> leafJob list) option" where
  "decodeRegionJobs x y w h params palettes st =
     (case st of (br, leafCounter, jobs) \<Rightarrow>
        case ReadBit br of
          Inl e \<Rightarrow> Some (Inl e)
        | Inr (isLeaf, br) \<Rightarrow>
            if isLeaf then Some (decodeLeafJob x y w h palettes (br, leafCounter, jobs))
            else if w \<ge> h \<and> goDiv w 2 \<ge> minBlock params
            then
              (let w1 = goDiv w 2; w2 = w - w1
               in Option.bind (decodeRegionJobs x y w1 h params palettes (br, leafCounter, jobs))
                    (\<lambda>r. case r of
                            Inl e \<Rightarrow> Some (Inl e)
                          | Inr st \<Rightarrow> decodeRegionJobs (x + w1) y w2 h params palettes st))
            else
              (let h1 = goDiv h 2; h2 = h - h1
               in if h1 \<le> 0 then Some (decodeLeafJob x y w h palettes (br, leafCounter, jobs))
                  else Option.bind (decodeRegionJobs x y w h1 params palettes (br, leafCounter, jobs))
                         (\<lambda>r. case r of
                                 Inl e \<Rightarrow> Some (Inl e)
                               | Inr st \<Rightarrow> decodeRegionJobs x (y + h1) w h2 params palettes st)))"

declare decodeRegionJobs.simps [code]

section \<open>Painting the jobs\<close>

text \<open>
  The coordinates at which the two loops over a job call \<^verbatim>\<open>dst.SetRGBA\<close>, in order: the
  pixels of the job's rectangle that pass the bounds test.
\<close>

definition jobPixels :: "raster \<Rightarrow> leafJob \<Rightarrow> (int \<times> int) list" where
  "jobPixels dst job =
     concat (map (\<lambda>yy. concat (map (\<lambda>xx.
               let px = jx job + int xx; py = jy job + int yy
               in if \<not> inBounds dst px py then [] else [(px, py)])
             [0..<nat (jw job)]))
           [0..<nat (jh job)])"

text \<open>The rectangle of a job: the pixels \<open>(px, py)\<close> its two loops range over.\<close>

definition jobCovers :: "leafJob \<Rightarrow> int \<Rightarrow> int \<Rightarrow> bool" where
  "jobCovers job px py =
     (jx job \<le> px \<and> px < jx job + jw job \<and> jy job \<le> py \<and> py < jy job + jh job)"

text \<open>One job: \<^verbatim>\<open>palettes[job.pal][job.idx]\<close> panics when an index is out of range.\<close>

definition paintJob :: "rgba list list \<Rightarrow> leafJob \<Rightarrow> raster \<Rightarrow> error + raster" where
  "paintJob palettes job dst =
     (if jpal job < 0 \<or> jpal job \<ge> int (length palettes) then Inl PanicIndexOutOfRange
      else if jidx job < 0 \<or> jidx job \<ge> int (length (palettes ! nat (jpal job)))
      then Inl PanicIndexOutOfRange
      else
        let c = palettes ! nat (jpal job) ! nat (jidx job)
        in Inr (fold (\<lambda>p d. SetRGBA d (fst p) (snd p) c) (jobPixels dst job) dst))"

fun paintJobs :: "rgba list list \<Rightarrow> leafJob list \<Rightarrow> raster \<Rightarrow> error + raster" where
  "paintJobs palettes [] dst = Inr dst"
| "paintJobs palettes (job # js) dst =
     (case paintJob palettes job dst of
        Inl e \<Rightarrow> Inl e
      | Inr dst \<Rightarrow> paintJobs palettes js dst)"

text \<open>
  The loop over the workers.  Each goroutine paints the slice \<^verbatim>\<open>jobs[start:end]\<close>; the
  model runs the workers one after the other, in the order they are started.
\<close>

fun paintWorkers :: "rgba list list \<Rightarrow> leafJob list \<Rightarrow> int \<Rightarrow> nat list \<Rightarrow> raster \<Rightarrow> error + raster" where
  "paintWorkers palettes jobs chunk [] dst = Inr dst"
| "paintWorkers palettes jobs chunk (wIdx # ws) dst =
     (let start = int wIdx * chunk;
          end = start + chunk
      in if start \<ge> int (length jobs) then Inr dst
         else
           let end = (if end > int (length jobs) then int (length jobs) else end)
           in case paintJobs palettes (take (nat end - nat start) (drop (nat start) jobs)) dst of
                Inl e \<Rightarrow> Inl e
              | Inr dst \<Rightarrow> paintWorkers palettes jobs chunk ws dst)"

definition paintLeafJobsParallel :: "int \<Rightarrow> raster \<Rightarrow> rgba list list \<Rightarrow> leafJob list \<Rightarrow> error + raster" where
  "paintLeafJobsParallel numCPU dst palettes jobs =
     (if length jobs = 0 then Inr dst
      else
        let workers = numCPU;
            workers = (if workers < 1 then 1 else workers);
            workers = (if int (length jobs) < workers then int (length jobs) else workers);
            chunk = goDiv (int (length jobs) + workers - 1) workers
        in paintWorkers palettes jobs chunk [0..<nat workers] dst)"

section \<open>Encode and Decode\<close>

text \<open>\<^verbatim>\<open>"BAB2"\<close>.\<close>

definition magicCodec2 :: "byte list" where
  "magicCodec2 = [0x42, 0x41, 0x42, 0x32]"

text \<open>\<^verbatim>\<open>binary.Write\<close> and \<^verbatim>\<open>binary.Read\<close> of a \<^verbatim>\<open>uint16\<close>, big-endian.\<close>

definition putUint16 :: "16 word \<Rightarrow> byte list" where
  "putUint16 v = [ucast (drop_bit 8 v), ucast v]"

fun readUint16 :: "byte list \<Rightarrow> error + 16 word \<times> byte list" where
  "readUint16 [] = Inl ErrEOF"
| "readUint16 [b0] = Inl ErrUnexpectedEOF"
| "readUint16 (b0 # b1 # rest) = Inr (push_bit 8 (ucast b0) OR ucast b1, rest)"

text \<open>The loop of \<^verbatim>\<open>Encode\<close> that writes the palettes to \<^verbatim>\<open>raw\<close>.\<close>

fun writePalettes :: "palette list \<Rightarrow> byte list \<Rightarrow> error + byte list" where
  "writePalettes [] raw = Inr raw"
| "writePalettes (p # ps) raw =
     (if length p > 255 then Inl (ErrEncodePaletteSize (length p))
      else writePalettes ps
             (raw @ [word_of_nat (length p)] @ concat (map (\<lambda>c. [colR c, colG c, colB c]) p)))"

text \<open>The loop of \<^verbatim>\<open>Encode\<close> over the stripes.\<close>

fun encodeStripes :: "int \<Rightarrow> codec2Params \<Rightarrow> byte list \<Rightarrow> bool list \<Rightarrow> stripeInfo list
     \<Rightarrow> BitWriter \<times> nat \<times> nat \<Rightarrow> (error + BitWriter \<times> nat \<times> nat) option" where
  "encodeStripes w params leafLocal pattern [] st = Some (Inr st)"
| "encodeStripes w params leafLocal pattern (s # ss) st =
     Option.bind (encodeRegion 0 (sy s) w (sh s) params leafLocal pattern st)
       (\<lambda>r. case r of
               Inl e \<Rightarrow> Some (Inl e)
             | Inr st \<Rightarrow> encodeStripes w params leafLocal pattern ss st)"

text \<open>
  \<^verbatim>\<open>Encode\<close>.  The argument is the raster \<^verbatim>\<open>toRGBA(img)\<close>.  \<open>numCPU\<close> is \<^verbatim>\<open>runtime.NumCPU()\<close> of the
  encoding host; \<open>zstdCompress\<close> is the zstd writer, from the bytes written to the frame
  it produces.
\<close>

definition Encode :: "int \<Rightarrow> (byte list \<Rightarrow> byte list) \<Rightarrow> raster \<Rightarrow> int \<Rightarrow> (error + byte list) option" where
  "Encode numCPU zstdCompress rgba quality0 =
     (let quality = (if quality0 < 1 then 1 else quality0);
          quality = (if quality > 100 then 100 else quality);
          w = (word_of_nat (rw rgba) :: 16 word);
          h = (word_of_nat (rh rgba) :: 16 word);
          b = magicCodec2 @ putUint16 w @ putUint16 h @ [word_of_int quality];
          params = paramsForQuality quality
      in Option.bind (collectRegionColorsStriped numCPU rgba params)
           (\<lambda>r. case r of
              Inl e \<Rightarrow> Some (Inl e)
            | Inr (leaves, pattern) \<Rightarrow>
                (case buildPalettes leaves params of
                   Inl e \<Rightarrow> Some (Inl e)
                 | Inr (pals, refs) \<Rightarrow>
                     let leafLocal = map idx refs
                     in case writePalettes pals (putUint16 (word_of_nat (length pals))) of
                          Inl e \<Rightarrow> Some (Inl e)
                        | Inr raw \<Rightarrow>
                            (case splitStripes numCPU (uint h) (minBlock params) of
                               Inl e \<Rightarrow> Some (Inl e)
                             | Inr stripes \<Rightarrow>
                                 Option.bind
                                   (encodeStripes (uint w) params leafLocal pattern stripes
                                      (NewBitWriter raw, 0, 0))
                                   (\<lambda>r. case r of
                                      Inl e \<Rightarrow> Some (Inl e)
                                    | Inr (bw, leafPos, patPos) \<Rightarrow>
                                        Some (Inr (b @ zstdCompress (wbuf (Flush bw)))))))))"

text \<open>The inner loop of \<^verbatim>\<open>Decode\<close> that reads the \<open>n\<close> colours of one palette.\<close>

fun readColors :: "nat \<Rightarrow> byte list \<Rightarrow> error + rgba list \<times> byte list" where
  "readColors 0 bs = Inr ([], bs)"
| "readColors (Suc n) [] = Inl ErrEOF"
| "readColors (Suc n) [b0] = Inl ErrUnexpectedEOF"
| "readColors (Suc n) [b0, b1] = Inl ErrUnexpectedEOF"
| "readColors (Suc n) (b0 # b1 # b2 # bs) =
     (case readColors n bs of
        Inl e \<Rightarrow> Inl e
      | Inr (p, bs) \<Rightarrow> Inr (RGBA b0 b1 b2 255 # p, bs))"

text \<open>The loop of \<^verbatim>\<open>Decode\<close> that reads \<open>n\<close> palettes.\<close>

fun readPalettes :: "nat \<Rightarrow> byte list \<Rightarrow> error + rgba list list \<times> byte list" where
  "readPalettes 0 bs = Inr ([], bs)"
| "readPalettes (Suc n) [] = Inl ErrEOF"
| "readPalettes (Suc n) (szByte # bs) =
     (case readColors (unat szByte) bs of
        Inl e \<Rightarrow> Inl e
      | Inr (p, bs) \<Rightarrow>
          (case readPalettes n bs of
             Inl e \<Rightarrow> Inl e
           | Inr (ps, bs) \<Rightarrow> Inr (p # ps, bs)))"

text \<open>The loop of \<^verbatim>\<open>Decode\<close> over the stripes.\<close>

fun decodeStripes :: "int \<Rightarrow> codec2Params \<Rightarrow> rgba list list \<Rightarrow> stripeInfo list
     \<Rightarrow> BitReader \<times> int \<times> leafJob list \<Rightarrow> (error + BitReader \<times> int \<times> leafJob list) option" where
  "decodeStripes w params palettes [] st = Some (Inr st)"
| "decodeStripes w params palettes (s # ss) st =
     Option.bind (decodeRegionJobs 0 (sy s) w (sh s) params palettes st)
       (\<lambda>r. case r of
               Inl e \<Rightarrow> Some (Inl e)
             | Inr st \<Rightarrow> decodeStripes w params palettes ss st)"

text \<open>
  \<^verbatim>\<open>Decode\<close>.  \<open>numCPU\<close> is \<^verbatim>\<open>runtime.NumCPU()\<close> of the decoding host, \<open>zstdDecompress\<close> the zstd
  reader (\<open>None\<close> when it reports an error), \<open>mix\<close> the float64 blend of the smoother.
  \<^verbatim>\<open>r.Read(magic)\<close> fails on an empty input only; a short read leaves zero bytes in
  \<^verbatim>\<open>magic\<close>, which then differs from the tag.
\<close>

definition Decode :: "int \<Rightarrow> (byte list \<Rightarrow> byte list option) \<Rightarrow> mixfn \<Rightarrow> byte list \<Rightarrow> (error + raster) option" where
  "Decode numCPU zstdDecompress mix data =
     (if data = [] then Some (Inl ErrEOF)
      else if take 4 data \<noteq> magicCodec2 then Some (Inl ErrInvalidMagic)
      else
        case readUint16 (drop 4 data) of
          Inl e \<Rightarrow> Some (Inl e)
        | Inr (w16, r) \<Rightarrow>
        case readUint16 r of
          Inl e \<Rightarrow> Some (Inl e)
        | Inr (h16, r) \<Rightarrow>
        case r of
          [] \<Rightarrow> Some (Inl ErrEOF)
        | qByte # r \<Rightarrow>
        let quality = uint qByte;
            quality = (if quality < 1 then 1 else quality);
            quality = (if quality > 100 then 100 else quality);
            params = paramsForQuality quality;
            w = uint w16; h = uint h16;
            dst = NewRGBA (nat w) (nat h)
        in case zstdDecompress r of
             None \<Rightarrow> Some (Inl ErrZstd)
           | Some plain \<Rightarrow>
        if length plain < 2 then Some (Inl ErrTruncatedPayload)
        else
        case readUint16 plain of
          Inl e \<Rightarrow> Some (Inl e)
        | Inr (numPalettes, reader) \<Rightarrow>
        case readPalettes (unat numPalettes) reader of
          Inl e \<Rightarrow> Some (Inl e)
        | Inr (palettes, rest) \<Rightarrow>
        let br = NewBitReaderFromBytes rest
        in case splitStripes numCPU h (minBlock params) of
             Inl e \<Rightarrow> Some (Inl e)
           | Inr stripes \<Rightarrow>
        Option.bind (decodeStripes w params palettes stripes (br, 0, []))
          (\<lambda>r. case r of
             Inl e \<Rightarrow> Some (Inl e)
           | Inr (br, leafCounter, jobs) \<Rightarrow>
               (case paintLeafJobsParallel numCPU dst palettes jobs of
                  Inl e \<Rightarrow> Some (Inl e)
                | Inr dst \<Rightarrow> Some (Inr (smoothEdges mix dst (maxGrad params))))))"

section \<open>The palette rule as the specification words it\<close>

text \<open>
  Two colours are equal for merging when every channel differs by at most the tolerance.
\<close>

definition specClose :: "int \<Rightarrow> rgba \<Rightarrow> rgba \<Rightarrow> bool" where
  "specClose tol a b =
     (\<bar>uint (colR a) - uint (colR b)\<bar> \<le> tol \<and> \<bar>uint (colG a) - uint (colG b)\<bar> \<le> tol
      \<and> \<bar>uint (colB a) - uint (colB b)\<bar> \<le> tol)"

text \<open>The linear scan of a palette in insertion order: the first entry that matches.\<close>

fun firstClose :: "int \<Rightarrow> rgba \<Rightarrow> rgba list \<Rightarrow> nat option" where
  "firstClose tol c [] = None"
| "firstClose tol c (pc # pcs) =
     (if specClose tol c pc then Some 0 else map_option Suc (firstClose tol c pcs))"

text \<open>
  One group of leaves, from the palette \<open>p\<close> built so far: a leaf reuses the first
  matching entry, otherwise its colour is appended.  \<open>specPalette\<close> is the palette at the
  end of the group, \<open>specIndices\<close> the index each leaf gets.
\<close>

fun specPalette :: "int \<Rightarrow> rgba list \<Rightarrow> rgba list \<Rightarrow> rgba list" where
  "specPalette tol p [] = p"
| "specPalette tol p (c # cs) =
     (case firstClose tol c p of
        Some j \<Rightarrow> specPalette tol p cs
      | None \<Rightarrow> specPalette tol (p @ [c]) cs)"

fun specIndices :: "int \<Rightarrow> rgba list \<Rightarrow> rgba list \<Rightarrow> nat list" where
  "specIndices tol p [] = []"
| "specIndices tol p (c # cs) =
     (case firstClose tol c p of
        Some j \<Rightarrow> j # specIndices tol p cs
      | None \<Rightarrow> length p # specIndices tol (p @ [c]) cs)"

text \<open>The \<open>k\<close>-th of the consecutive groups of at most 256 leaves.\<close>

definition leafGroup :: "rgba list \<Rightarrow> nat \<Rightarrow> rgba list" where
  "leafGroup leaves k = take 256 (drop (256 * k) leaves)"

text \<open>
  The palettes and the reference of leaf \<open>i\<close> that the rule gives for a leaf sequence.
  The reference holds the palette number in 16 bits and the index in 8 bits, as
  \<^verbatim>\<open>leafRef\<close> does.
\<close>

definition specPals :: "int \<Rightarrow> rgba list \<Rightarrow> rgba list list" where
  "specPals tol leaves =
     map (\<lambda>k. specPalette tol [] (leafGroup leaves k)) [0..<(length leaves + 255) div 256]"

definition specRef :: "int \<Rightarrow> rgba list \<Rightarrow> nat \<Rightarrow> leafRef" where
  "specRef tol leaves i =
     \<lparr>pal = word_of_nat (i div 256),
      idx = word_of_nat (specIndices tol [] (leafGroup leaves (i div 256)) ! (i mod 256))\<rparr>"

section \<open>The bit stream as the specification words it\<close>

text \<open>
  The eight bits of a byte, most significant first: the order in which \<^verbatim>\<open>WriteByte\<close> writes
  and \<^verbatim>\<open>ReadByte\<close> reads them.
\<close>

definition bitsOfByte :: "byte \<Rightarrow> bool list" where
  "bitsOfByte b = map (\<lambda>i. bit b (7 - i)) [0..<8]"

text \<open>
  The bits a writer has taken so far, the bytes of its buffer followed by the bits pending
  in \<^verbatim>\<open>acc\<close>, and the condition that holds of a writer between calls: fewer than eight
  bits pending, the unused low bits of \<^verbatim>\<open>acc\<close> zero.
\<close>

definition writerBits :: "BitWriter \<Rightarrow> bool list" where
  "writerBits bw = concat (map bitsOfByte (wbuf bw)) @ take (wnbit bw) (bitsOfByte (wacc bw))"

definition writerOK :: "BitWriter \<Rightarrow> bool" where
  "writerOK bw = (wnbit bw < 8 \<and> (\<forall>k \<in> set [0..<8 - wnbit bw]. \<not> bit (wacc bw) k))"

text \<open>
  The bits a reader has still to deliver, the rest of the byte in \<^verbatim>\<open>acc\<close> followed by the
  bytes from \<^verbatim>\<open>pos\<close> on, and the condition that holds of a reader between calls.
\<close>

definition readerBits :: "BitReader \<Rightarrow> bool list" where
  "readerBits br = drop (if rnbit br = 0 then 8 else rnbit br) (bitsOfByte (racc br))
                   @ concat (map bitsOfByte (drop (rpos br) (rdata br)))"

definition readerOK :: "BitReader \<Rightarrow> bool" where
  "readerOK br = (rnbit br < 8)"

text \<open>
  The grammar \<^verbatim>\<open>node := leaf-bit (1) leaf-body | internal-bit (0) node node\<close>,
  \<^verbatim>\<open>leaf-body := palette-local-index (8 bits, unsigned)\<close>: a tree, its bits on the wire, its
  structure bits alone, and its leaf indices, all in node order.
\<close>

datatype node = WLeaf byte | WNode node node

fun wire :: "node \<Rightarrow> bool list" where
  "wire (WLeaf b) = True # bitsOfByte b"
| "wire (WNode l r) = False # wire l @ wire r"

fun shape :: "node \<Rightarrow> bool list" where
  "shape (WLeaf b) = [True]"
| "shape (WNode l r) = False # shape l @ shape r"

fun leavesOf :: "node \<Rightarrow> byte list" where
  "leavesOf (WLeaf b) = [b]"
| "leavesOf (WNode l r) = leavesOf l @ leavesOf r"

text \<open>
  The two range checks of the decoder pass for the leaves \<open>ls\<close> when the leaf counter
  stands at \<open>cnt\<close>: leaf \<open>k\<close> uses palette \<open>(cnt + k) / 256\<close>.
\<close>

definition validPal :: "rgba list list \<Rightarrow> int \<Rightarrow> byte list \<Rightarrow> bool" where
  "validPal palettes cnt ls =
     list_all (\<lambda>k. (cnt + int k) div 256 < int (length palettes)
                 \<and> uint (ls ! k) < int (length (palettes ! nat ((cnt + int k) div 256))))
       [0..<length ls]"

section \<open>Sample inputs\<close>

text \<open>
  A 4x3 raster of greys whose border spans lumas 0..40 and whose two inner pixels have
  lumas 10 and 20.
\<close>

definition sampleEdgeBlock :: raster where
  "sampleEdgeBlock = \<lparr>rw = 4, rh = 3, pix =
     [RGBA 0 0 0 255, RGBA 40 40 40 255, RGBA 0 0 0 255, RGBA 40 40 40 255,
      RGBA 0 0 0 255, RGBA 10 10 10 255, RGBA 20 20 20 255, RGBA 40 40 40 255,
      RGBA 0 0 0 255, RGBA 40 40 40 255, RGBA 0 0 0 255, RGBA 40 40 40 255]\<rparr>"

text \<open>
  A raster of one row of 256 pixels, no two of them within tolerance 1 of each other:
  pixel \<open>2k\<close> is \<open>(2k, 0, 0)\<close>, pixel \<open>2k+1\<close> is \<open>(2k, 255, 0)\<close>.
\<close>

definition sampleManyColors :: raster where
  "sampleManyColors = \<lparr>rw = 256, rh = 1, pix =
     map (\<lambda>i. RGBA (word_of_nat (2 * (i div 2))) (if even i then 0 else 255) 0 255) [0..<256]\<rparr>"

text \<open>A raster of two pixels, white above black.\<close>

definition sampleTwoPixels :: raster where
  "sampleTwoPixels = \<lparr>rw = 1, rh = 2, pix = [RGBA 255 255 255 255, RGBA 0 0 0 255]\<rparr>"

text \<open>The 4x4 raster filled with RGB (200,100,50).\<close>

definition sampleFlat :: raster where
  "sampleFlat = \<lparr>rw = 4, rh = 4, pix = replicate 16 (RGBA 200 100 50 255)\<rparr>"

text \<open>
  Two rasters of one row and 65536 columns, one more than a 16-bit field holds: a white
  pixel followed by black ones, and black throughout.
\<close>

definition sampleWide :: raster where
  "sampleWide = \<lparr>rw = 65536, rh = 1,
                  pix = RGBA 255 255 255 255 # replicate 65535 (RGBA 0 0 0 255)\<rparr>"

definition sampleWideBlack :: raster where
  "sampleWideBlack = \<lparr>rw = 65536, rh = 1, pix = replicate 65536 (RGBA 0 0 0 255)\<rparr>"

section \<open>Rasters: reading back what a loop wrote\<close>

lemma wf_NewRGBA: "wf_raster (NewRGBA w h)"
  by (simp add: wf_raster_def NewRGBA_def)

lemma SetRGBA_dims: "rw (SetRGBA img x y c) = rw img" "rh (SetRGBA img x y c) = rh img"
  by (simp_all add: SetRGBA_def)

lemma wf_SetRGBA: "wf_raster img \<Longrightarrow> wf_raster (SetRGBA img x y c)"
  by (simp add: wf_raster_def SetRGBA_def)

lemma inBounds_SetRGBA: "inBounds (SetRGBA img x y c) x' y' = inBounds img x' y'"
  by (simp add: inBounds_def SetRGBA_dims)

lemma pixOffset_less:
  assumes "inBounds img x y" "wf_raster img"
  shows "pixOffset img x y < length (pix img)"
proof -
  define a b where "a = nat x" and "b = nat y"
  have ab: "x = int a" "y = int b" "a < rw img" "b < rh img"
    using assms(1) by (auto simp: inBounds_def a_def b_def)
  have "b * rw img + a < Suc b * rw img" using ab by simp
  also have "\<dots> \<le> rh img * rw img" using ab by (intro mult_le_mono1) simp
  finally have "b * rw img + a < rw img * rh img" by (simp add: mult.commute)
  moreover have "pixOffset img x y = b * rw img + a"
    unfolding pixOffset_def ab by (simp add: nat_add_distrib nat_mult_distrib)
  ultimately show ?thesis using assms(2) by (simp add: wf_raster_def)
qed

lemma pixOffset_inj:
  assumes "inBounds img x y" "inBounds img x' y'" "pixOffset img x y = pixOffset img x' y'"
  shows "x = x' \<and> y = y'"
proof -
  define a b a' b' where "a = nat x" and "b = nat y" and "a' = nat x'" and "b' = nat y'"
  have ab: "x = int a" "y = int b" "a < rw img"
    using assms(1) by (auto simp: inBounds_def a_def b_def)
  have ab': "x' = int a'" "y' = int b'" "a' < rw img"
    using assms(2) by (auto simp: inBounds_def a'_def b'_def)
  have e: "b * rw img + a = b' * rw img + a'"
    using assms(3) unfolding pixOffset_def ab ab'
    by (simp add: nat_add_distrib nat_mult_distrib)
  have "(b * rw img + a) div rw img = b" "(b' * rw img + a') div rw img = b'"
    using ab ab' by simp_all
  then have "b = b'" using e by simp
  then show ?thesis using e ab ab' by simp
qed

lemma RGBAAt_SetRGBA:
  assumes "wf_raster img"
  shows "RGBAAt (SetRGBA img x y c) x' y' =
           (if x' = x \<and> y' = y \<and> inBounds img x y then c else RGBAAt img x' y')"
proof (cases "inBounds img x y")
  case False
  then show ?thesis by (simp add: SetRGBA_def)
next
  case True
  show ?thesis
  proof (cases "inBounds img x' y'")
    case False
    then show ?thesis using True by (auto simp: RGBAAt_def inBounds_SetRGBA)
  next
    case ib: True
    have off: "pixOffset (SetRGBA img x y c) x' y' = pixOffset img x' y'"
      by (simp add: pixOffset_def SetRGBA_dims)
    show ?thesis
    proof (cases "x' = x \<and> y' = y")
      case True
      then show ?thesis
        using \<open>inBounds img x y\<close> pixOffset_less [OF \<open>inBounds img x y\<close> assms]
        by (simp add: RGBAAt_def inBounds_SetRGBA off) (simp add: SetRGBA_def pixOffset_def)
    next
      case False
      then have "pixOffset img x y \<noteq> pixOffset img x' y'"
        using pixOffset_inj [OF \<open>inBounds img x y\<close> ib] by auto
      then show ?thesis
        using False ib \<open>inBounds img x y\<close>
        by (auto simp: RGBAAt_def inBounds_SetRGBA off) (auto simp: SetRGBA_def)
    qed
  qed
qed

text \<open>A loop over the columns of one row that sets every pixel of the row once.\<close>

lemma row_fold_props:
  fixes f :: "int \<Rightarrow> rgba"
  assumes "wf_raster d"
  shows "wf_raster (fold (\<lambda>x dst. SetRGBA dst (int x) y (f (int x))) [0..<n] d)
       \<and> rw (fold (\<lambda>x dst. SetRGBA dst (int x) y (f (int x))) [0..<n] d) = rw d
       \<and> rh (fold (\<lambda>x dst. SetRGBA dst (int x) y (f (int x))) [0..<n] d) = rh d
       \<and> (\<forall>x' y'. RGBAAt (fold (\<lambda>x dst. SetRGBA dst (int x) y (f (int x))) [0..<n] d) x' y' =
             (if y' = y \<and> 0 \<le> x' \<and> x' < int n \<and> inBounds d x' y' then f x' else RGBAAt d x' y'))"
proof (induction n)
  case 0
  then show ?case using assms by auto
next
  case (Suc n)
  let ?d = "fold (\<lambda>x dst. SetRGBA dst (int x) y (f (int x))) [0..<n] d"
  have wf: "wf_raster ?d" and dims: "rw ?d = rw d" "rh ?d = rh d" using Suc by auto
  have ib: "\<And>a b. inBounds ?d a b = inBounds d a b" by (simp add: inBounds_def dims)
  have key: "\<And>k::int. (k < int (Suc n)) = (k < int n \<or> k = int n)" by auto
  show ?case
    using Suc
    by (auto simp: wf_SetRGBA SetRGBA_dims RGBAAt_SetRGBA [OF wf] ib key simp del: of_nat_Suc)
qed

lemma rows_fold_props:
  fixes g :: "int \<Rightarrow> int \<Rightarrow> rgba"
  assumes "wf_raster d"
  shows "wf_raster (fold (\<lambda>y dst. fold (\<lambda>x dst. SetRGBA dst (int x) (int y) (g (int x) (int y))) [0..<n] dst) [0..<m] d)
       \<and> rw (fold (\<lambda>y dst. fold (\<lambda>x dst. SetRGBA dst (int x) (int y) (g (int x) (int y))) [0..<n] dst) [0..<m] d) = rw d
       \<and> rh (fold (\<lambda>y dst. fold (\<lambda>x dst. SetRGBA dst (int x) (int y) (g (int x) (int y))) [0..<n] dst) [0..<m] d) = rh d
       \<and> (\<forall>x' y'. RGBAAt (fold (\<lambda>y dst. fold (\<lambda>x dst. SetRGBA dst (int x) (int y) (g (int x) (int y))) [0..<n] dst) [0..<m] d) x' y' =
             (if 0 \<le> y' \<and> y' < int m \<and> 0 \<le> x' \<and> x' < int n \<and> inBounds d x' y' then g x' y' else RGBAAt d x' y'))"
proof (induction m)
  case 0
  then show ?case using assms by auto
next
  case (Suc m)
  let ?d = "fold (\<lambda>y dst. fold (\<lambda>x dst. SetRGBA dst (int x) (int y) (g (int x) (int y))) [0..<n] dst) [0..<m] d"
  have wf: "wf_raster ?d" and dims: "rw ?d = rw d" "rh ?d = rh d" using Suc by auto
  have ib: "\<And>a b. inBounds ?d a b = inBounds d a b" by (simp add: inBounds_def dims)
  note row = row_fold_props [OF wf, where y = "int m" and f = "\<lambda>x. g x (int m)" and n = n]
  have key: "\<And>k::int. (k < int (Suc m)) = (k < int m \<or> k = int m)" by auto
  show ?case
    using Suc row by (auto simp: ib dims key simp del: of_nat_Suc)
qed

lemma smoothEdges_dims:
  "rw (smoothEdges mix src tol) = rw src" "rh (smoothEdges mix src tol) = rh src"
  using rows_fold_props [OF wf_NewRGBA, where w1 = "rw src" and h1 = "rh src"
      and g = "smoothPixel mix src tol" and n = "rw src" and m = "rh src"]
  by (simp_all add: smoothEdges_def NewRGBA_def)

lemma RGBAAt_smoothEdges:
  assumes "inBounds src x y"
  shows "RGBAAt (smoothEdges mix src tol) x y = smoothPixel mix src tol x y"
proof -
  have "inBounds (NewRGBA (rw src) (rh src)) x y"
    using assms by (simp add: inBounds_def NewRGBA_def)
  then show ?thesis
    using rows_fold_props [OF wf_NewRGBA, where w1 = "rw src" and h1 = "rh src"
      and g = "smoothPixel mix src tol" and n = "rw src" and m = "rh src"] assms
    by (simp add: smoothEdges_def inBounds_def)
qed

text \<open>The first loop sets \<^verbatim>\<open>edge\<close> only at a neighbour whose luma differs by more than \<open>2 * tol\<close>.\<close>

lemma edgeScan_no_edge:
  assumes "\<forall>p \<in> set ps. inBounds src (fst p) (snd p) \<longrightarrow>
             \<bar>luma (RGBAAt src (fst p) (snd p)) - lc\<bar> \<le> 2 * tol"
  shows "fst (fold (edgeStep src tol lc) ps (e, m)) = e"
  using assms
proof (induction ps arbitrary: e m)
  case Nil
  then show ?case by simp
next
  case (Cons p ps)
  obtain px py where p: "p = (px, py)" by (cases p)
  have step: "fst (edgeStep src tol lc p (e, m)) = e"
    using Cons.prems unfolding p by (auto simp: edgeStep_def Let_def)
  obtain e' m' where st: "edgeStep src tol lc p (e, m) = (e', m')"
    by (cases "edgeStep src tol lc p (e, m)")
  have "e' = e" using step st by simp
  then show ?case using Cons.IH [of e m'] Cons.prems st by simp
qed

section \<open>Claims\<close>

text \<open>
  C8. A pixel whose luma differs from the luma of each of its in-bounds neighbours by at
  most \<open>2 * tol\<close> is written to the output of the edge smoother unchanged.
\<close>

theorem smoothEdges_keeps_flat_pixel:
  assumes "inBounds src x y"
    and "\<forall>p \<in> set (neigh x y). inBounds src (fst p) (snd p) \<longrightarrow>
           \<bar>luma (RGBAAt src (fst p) (snd p)) - luma (RGBAAt src x y)\<bar> \<le> 2 * tol"
  shows "RGBAAt (smoothEdges mix src tol) x y = RGBAAt src x y"
proof -
  obtain e m where em: "fold (edgeStep src tol (luma (RGBAAt src x y))) (neigh x y) (False, 0) = (e, m)"
    by (cases "fold (edgeStep src tol (luma (RGBAAt src x y))) (neigh x y) (False, 0)")
  have "e = False"
    using edgeScan_no_edge [OF assms(2), of False 0] em by simp
  then have "smoothPixel mix src tol x y = RGBAAt src x y"
    using em by (simp add: smoothPixel_def Let_def)
  then show ?thesis using RGBAAt_smoothEdges [OF assms(1)] by simp
qed

theorem smoothEdges_keeps_flat_pixel_witness:
  "inBounds \<lparr>rw = 2, rh = 1, pix = [RGBA 10 20 30 255, RGBA 12 20 30 255]\<rparr> 0 0
   \<and> \<bar>luma (RGBA 12 20 30 255) - luma (RGBA 10 20 30 255)\<bar> \<le> 2 * 1
   \<and> RGBAAt (smoothEdges (\<lambda>a c s n. 0)
         \<lparr>rw = 2, rh = 1, pix = [RGBA 10 20 30 255, RGBA 12 20 30 255]\<rparr> 1) 0 0 = RGBA 10 20 30 255"
proof -
  let ?img = "\<lparr>rw = 2, rh = 1, pix = [RGBA 10 20 30 255, RGBA 12 20 30 255]\<rparr>"
  have ib: "inBounds ?img 0 0" by (simp add: inBounds_def)
  have nb: "\<forall>p \<in> set (neigh 0 0). inBounds ?img (fst p) (snd p) \<longrightarrow>
              \<bar>luma (RGBAAt ?img (fst p) (snd p)) - luma (RGBAAt ?img 0 0)\<bar> \<le> 2 * 1"
    by (simp add: neigh_def inBounds_def RGBAAt_def pixOffset_def luma_def)
  have "RGBAAt ?img 0 0 = RGBA 10 20 30 255"
    by (simp add: RGBAAt_def inBounds_def pixOffset_def)
  moreover have "\<bar>luma (RGBA 12 20 30 255) - luma (RGBA 10 20 30 255)\<bar> \<le> 2 * 1"
    by (simp add: luma_def)
  ultimately show ?thesis
    using ib smoothEdges_keeps_flat_pixel [OF ib nb, of "\<lambda>a c s n. 0"] by simp
qed

section \<open>The painter writes inside the raster\<close>

lemma paintJob_dims:
  assumes "paintJob palettes job dst = Inr d"
  shows "rw d = rw dst \<and> rh d = rh dst \<and> length (pix d) = length (pix dst)"
proof -
  have fold_dims: "\<And>c ps d0. rw (fold (\<lambda>p d. SetRGBA d (fst p) (snd p) c) ps d0) = rw d0
      \<and> rh (fold (\<lambda>p d. SetRGBA d (fst p) (snd p) c) ps d0) = rh d0
      \<and> length (pix (fold (\<lambda>p d. SetRGBA d (fst p) (snd p) c) ps d0)) = length (pix d0)"
  proof -
    fix c ps d0
    show "rw (fold (\<lambda>p d. SetRGBA d (fst p) (snd p) c) ps d0) = rw d0
      \<and> rh (fold (\<lambda>p d. SetRGBA d (fst p) (snd p) c) ps d0) = rh d0
      \<and> length (pix (fold (\<lambda>p d. SetRGBA d (fst p) (snd p) c) ps d0)) = length (pix d0)"
      by (induction ps arbitrary: d0) (simp_all add: SetRGBA_def)
  qed
  show ?thesis
    using assms fold_dims by (auto simp: paintJob_def Let_def split: if_splits)
qed

lemma paintJobs_dims:
  "paintJobs palettes js dst = Inr d \<Longrightarrow>
     rw d = rw dst \<and> rh d = rh dst \<and> length (pix d) = length (pix dst)"
proof (induction js arbitrary: dst)
  case Nil
  then show ?case by simp
next
  case (Cons job js)
  then obtain d1 where d1: "paintJob palettes job dst = Inr d1" "paintJobs palettes js d1 = Inr d"
    by (auto split: sum.splits)
  show ?case using Cons.IH [OF d1(2)] paintJob_dims [OF d1(1)] by simp
qed

lemma paintWorkers_dims:
  "paintWorkers palettes jobs chunk ws dst = Inr d \<Longrightarrow>
     rw d = rw dst \<and> rh d = rh dst \<and> length (pix d) = length (pix dst)"
proof (induction ws arbitrary: dst)
  case Nil
  then show ?case by simp
next
  case (Cons wIdx ws)
  show ?case
  proof (cases "int wIdx * chunk \<ge> int (length jobs)")
    case True
    then show ?thesis using Cons.prems by (simp add: Let_def)
  next
    case False
    then obtain js d1 where d1: "paintJobs palettes js dst = Inr d1"
        "paintWorkers palettes jobs chunk ws d1 = Inr d"
      using Cons.prems by (auto simp: Let_def split: sum.splits)
    show ?thesis using Cons.IH [OF d1(2)] paintJobs_dims [OF d1(1)] by simp
  qed
qed

lemma paintLeafJobsParallel_dims:
  assumes "paintLeafJobsParallel numCPU dst palettes jobs = Inr d"
  shows "rw d = rw dst \<and> rh d = rh dst \<and> length (pix d) = length (pix dst)"
proof (cases "length jobs = 0")
  case True
  then show ?thesis using assms by (simp add: paintLeafJobsParallel_def)
next
  case False
  then obtain chunk ws where "paintWorkers palettes jobs chunk ws dst = Inr d"
    using assms unfolding paintLeafJobsParallel_def Let_def by (simp del: paintWorkers.simps)
  then show ?thesis by (rule paintWorkers_dims)
qed

text \<open>What the loops over a job, a list of jobs and the workers write.\<close>

lemma jobPixels_covered:
  assumes "p \<in> set (jobPixels dst job)"
  shows "jobCovers job (fst p) (snd p) \<and> inBounds dst (fst p) (snd p)"
proof -
  from assms obtain yy xx where "yy < nat (jh job)" "xx < nat (jw job)"
      "inBounds dst (jx job + int xx) (jy job + int yy)" "p = (jx job + int xx, jy job + int yy)"
    by (auto simp: jobPixels_def Let_def split: if_splits)
  then show ?thesis
    by (simp add: jobCovers_def) linarith
qed


lemma SetRGBA_cell:
  assumes "pix (SetRGBA d0 x y c) ! k \<noteq> pix d0 ! k"
  shows "inBounds d0 x y \<and> k = pixOffset d0 x y"
proof (cases "inBounds d0 x y")
  case False
  with assms show ?thesis by (simp add: SetRGBA_def)
next
  case True
  have "k = pixOffset d0 x y"
  proof (rule ccontr)
    assume "k \<noteq> pixOffset d0 x y"
    then have "pix (SetRGBA d0 x y c) ! k = pix d0 ! k"
      using True by (simp add: SetRGBA_def)
    with assms show False by simp
  qed
  with True show ?thesis by simp
qed

lemma fold_SetRGBA_dims:
  "rw (fold (\<lambda>p d. SetRGBA d (fst p) (snd p) c) ps d0) = rw d0
   \<and> rh (fold (\<lambda>p d. SetRGBA d (fst p) (snd p) c) ps d0) = rh d0"
  by (induction ps arbitrary: d0) (simp_all add: SetRGBA_dims)

lemma fold_SetRGBA_cells:
  assumes "pix (fold (\<lambda>p d. SetRGBA d (fst p) (snd p) c) ps d0) ! k \<noteq> pix d0 ! k"
  shows "\<exists>p \<in> set ps. inBounds d0 (fst p) (snd p) \<and> k = pixOffset d0 (fst p) (snd p)"
  using assms
proof (induction ps arbitrary: d0)
  case Nil
  then show ?case by simp
next
  case (Cons p ps)
  define d1 where "d1 = SetRGBA d0 (fst p) (snd p) c"
  have f: "fold (\<lambda>p d. SetRGBA d (fst p) (snd p) c) (p # ps) d0 =
           fold (\<lambda>p d. SetRGBA d (fst p) (snd p) c) ps d1"
    by (simp add: d1_def)
  have ib: "\<And>x y. inBounds d1 x y = inBounds d0 x y"
    unfolding d1_def by (rule inBounds_SetRGBA)
  have po: "\<And>x y. pixOffset d1 x y = pixOffset d0 x y"
    by (simp add: pixOffset_def d1_def SetRGBA_dims)
  show ?case
  proof (cases "pix (fold (\<lambda>p d. SetRGBA d (fst p) (snd p) c) ps d1) ! k = pix d1 ! k")
    case True
    then have "pix d1 ! k \<noteq> pix d0 ! k" using Cons.prems f by simp
    then have "inBounds d0 (fst p) (snd p) \<and> k = pixOffset d0 (fst p) (snd p)"
      unfolding d1_def by (rule SetRGBA_cell)
    then show ?thesis by simp
  next
    case False
    from Cons.IH [OF False] obtain q where "q \<in> set ps" "inBounds d1 (fst q) (snd q)"
        "k = pixOffset d1 (fst q) (snd q)"
      by blast
    then show ?thesis unfolding ib po by auto
  qed
qed


lemma paintJob_cells:
  assumes "paintJob palettes job dst = Inr d" "pix d ! k \<noteq> pix dst ! k"
  shows "\<exists>x y. jobCovers job x y \<and> inBounds dst x y \<and> k = pixOffset dst x y"
proof -
  obtain c where d: "d = fold (\<lambda>p d. SetRGBA d (fst p) (snd p) c) (jobPixels dst job) dst"
    using assms(1) by (auto simp: paintJob_def Let_def split: if_splits)
  from assms(2) have "pix (fold (\<lambda>p d. SetRGBA d (fst p) (snd p) c) (jobPixels dst job) dst) ! k \<noteq> pix dst ! k"
    unfolding d .
  then obtain p where p: "p \<in> set (jobPixels dst job)" "k = pixOffset dst (fst p) (snd p)"
    using fold_SetRGBA_cells by blast
  from jobPixels_covered [OF p(1)] p(2) show ?thesis by blast
qed

lemma same_dims_frame:
  assumes "rw d1 = rw dst" "rh d1 = rh dst"
  shows "inBounds d1 x y = inBounds dst x y" "pixOffset d1 x y = pixOffset dst x y"
  using assms by (simp_all add: inBounds_def pixOffset_def)

lemma paintJobs_cells:
  "paintJobs palettes js dst = Inr d \<Longrightarrow> pix d ! k \<noteq> pix dst ! k \<Longrightarrow>
     \<exists>job \<in> set js. \<exists>x y. jobCovers job x y \<and> inBounds dst x y \<and> k = pixOffset dst x y"
proof (induction js arbitrary: dst)
  case Nil
  then show ?case by simp
next
  case (Cons job js)
  from Cons.prems(1) obtain d1 where d1: "paintJob palettes job dst = Inr d1"
      "paintJobs palettes js d1 = Inr d"
    by (cases "paintJob palettes job dst") simp_all
  have dims: "rw d1 = rw dst" "rh d1 = rh dst" using paintJob_dims [OF d1(1)] by simp_all
  show ?case
  proof (cases "pix d ! k = pix d1 ! k")
    case True
    then have "pix d1 ! k \<noteq> pix dst ! k" using Cons.prems(2) by simp
    from paintJob_cells [OF d1(1) this] show ?thesis by simp
  next
    case False
    from Cons.IH [OF d1(2) False] obtain j x y where "j \<in> set js" "jobCovers j x y"
        "inBounds d1 x y" "k = pixOffset d1 x y"
      by blast
    then have "j \<in> set (job # js)" "jobCovers j x y \<and> inBounds dst x y \<and> k = pixOffset dst x y"
      unfolding same_dims_frame [OF dims] by simp_all
    then show ?thesis by blast
  qed
qed

lemma paintWorkers_cells:
  "paintWorkers palettes jobs chunk ws dst = Inr d \<Longrightarrow> pix d ! k \<noteq> pix dst ! k \<Longrightarrow>
     \<exists>job \<in> set jobs. \<exists>x y. jobCovers job x y \<and> inBounds dst x y \<and> k = pixOffset dst x y"
proof (induction ws arbitrary: dst)
  case Nil
  then show ?case by simp
next
  case (Cons wIdx ws)
  show ?case
  proof (cases "int wIdx * chunk \<ge> int (length jobs)")
    case True
    then show ?thesis using Cons.prems by (simp add: Let_def)
  next
    case False
    define e where "e = (if int wIdx * chunk + chunk > int (length jobs) then int (length jobs)
                          else int wIdx * chunk + chunk)"
    define js where "js = take (nat e - nat (int wIdx * chunk)) (drop (nat (int wIdx * chunk)) jobs)"
    have step: "paintWorkers palettes jobs chunk (wIdx # ws) dst =
        (case paintJobs palettes js dst of Inl er \<Rightarrow> Inl er
         | Inr d1 \<Rightarrow> paintWorkers palettes jobs chunk ws d1)"
      using False by (simp add: Let_def js_def e_def)
    from Cons.prems(1) obtain d1 where d1: "paintJobs palettes js dst = Inr d1"
        "paintWorkers palettes jobs chunk ws d1 = Inr d"
      unfolding step by (cases "paintJobs palettes js dst") simp_all
    have sub: "set js \<subseteq> set jobs"
      unfolding js_def using set_take_subset set_drop_subset by fast
    have dims: "rw d1 = rw dst" "rh d1 = rh dst" using paintJobs_dims [OF d1(1)] by simp_all
    show ?thesis
    proof (cases "pix d ! k = pix d1 ! k")
      case True
      then have "pix d1 ! k \<noteq> pix dst ! k" using Cons.prems(2) by simp
      from paintJobs_cells [OF d1(1) this] sub show ?thesis by blast
    next
      case False
      from Cons.IH [OF d1(2) False] obtain j x y where "j \<in> set jobs" "jobCovers j x y"
          "inBounds d1 x y" "k = pixOffset d1 x y"
        by blast
      then have "j \<in> set jobs" "jobCovers j x y \<and> inBounds dst x y \<and> k = pixOffset dst x y"
        unfolding same_dims_frame [OF dims] by simp_all
      then show ?thesis by blast
    qed
  qed
qed

lemma paintLeafJobsParallel_cells:
  assumes "paintLeafJobsParallel numCPU dst palettes jobs = Inr d" "pix d ! k \<noteq> pix dst ! k"
  shows "\<exists>job \<in> set jobs. \<exists>x y. jobCovers job x y \<and> inBounds dst x y \<and> k = pixOffset dst x y"
proof (cases "length jobs = 0")
  case True
  then show ?thesis using assms by (simp add: paintLeafJobsParallel_def)
next
  case False
  then obtain chunk ws where "paintWorkers palettes jobs chunk ws dst = Inr d"
    using assms(1) unfolding paintLeafJobsParallel_def Let_def by (simp del: paintWorkers.simps)
  then show ?thesis using assms(2) by (rule paintWorkers_cells)
qed


text \<open>
  C10. Painting leaves the size of the raster and of its pixel store as they were, and every
  cell of the store that painting changed is the cell of a pixel inside the bounds of the
  raster that lies in the rectangle of one of the jobs: a job pixel outside the bounds is
  skipped, it is written nowhere.  Read through \<^verbatim>\<open>RGBAAt\<close>: a pixel whose colour changed is
  inside the bounds and inside the rectangle of a job.
\<close>

theorem paint_writes_in_bounds:
  assumes "paintLeafJobsParallel numCPU dst palettes jobs = Inr d"
  shows "rw d = rw dst \<and> rh d = rh dst \<and> length (pix d) = length (pix dst)
     \<and> (\<forall>k. pix d ! k \<noteq> pix dst ! k \<longrightarrow>
           (\<exists>job \<in> set jobs. \<exists>x y. jobCovers job x y \<and> inBounds dst x y \<and> k = pixOffset dst x y))
     \<and> (\<forall>x y. RGBAAt d x y \<noteq> RGBAAt dst x y \<longrightarrow>
           inBounds dst x y \<and> (\<exists>job \<in> set jobs. jobCovers job x y))"
proof -
  have dims: "rw d = rw dst" "rh d = rh dst" "length (pix d) = length (pix dst)"
    using paintLeafJobsParallel_dims [OF assms] by simp_all
  have cells: "\<exists>job \<in> set jobs. \<exists>x y. jobCovers job x y \<and> inBounds dst x y \<and> k = pixOffset dst x y"
    if "pix d ! k \<noteq> pix dst ! k" for k
    using assms that by (rule paintLeafJobsParallel_cells)
  have pixels: "inBounds dst x y \<and> (\<exists>job \<in> set jobs. jobCovers job x y)"
    if ne: "RGBAAt d x y \<noteq> RGBAAt dst x y" for x y
  proof -
    have ib: "inBounds d x y = inBounds dst x y" and po: "pixOffset d x y = pixOffset dst x y"
      by (rule same_dims_frame [OF dims(1,2)])+
    have i: "inBounds dst x y"
    proof (rule ccontr)
      assume "\<not> inBounds dst x y"
      then have "RGBAAt d x y = RGBAAt dst x y" by (simp add: RGBAAt_def ib)
      with ne show False by simp
    qed
    then have "pix d ! pixOffset dst x y \<noteq> pix dst ! pixOffset dst x y"
      using ne by (simp add: RGBAAt_def ib po)
    from cells [OF this] obtain job x' y' where j: "job \<in> set jobs" "jobCovers job x' y'"
        "inBounds dst x' y'" "pixOffset dst x y = pixOffset dst x' y'"
      by blast
    from pixOffset_inj [OF i j(3) j(4)] have "x = x'" "y = y'" by simp_all
    with j(1,2) i show ?thesis by blast
  qed
  from dims cells pixels show ?thesis by blast
qed

theorem paint_writes_in_bounds_witness:
  "paintLeafJobsParallel 1 (NewRGBA 2 2) [[RGBA 1 2 3 255]]
        [\<lparr>jx = 1, jy = 1, jw = 3, jh = 3, jpal = 0, jidx = 0\<rparr>]
       = Inr \<lparr>rw = 2, rh = 2, pix = [RGBA 0 0 0 0, RGBA 0 0 0 0, RGBA 0 0 0 0, RGBA 1 2 3 255]\<rparr>
   \<and> rw (NewRGBA 2 2) = 2 \<and> rh (NewRGBA 2 2) = 2 \<and> length (pix (NewRGBA 2 2)) = 4
   \<and> pixOffset (NewRGBA 2 2) 1 1 = 3
   \<and> inBounds (NewRGBA 2 2) 1 1
   \<and> jobCovers \<lparr>jx = 1, jy = 1, jw = 3, jh = 3, jpal = 0, jidx = 0\<rparr> 1 1
   \<and> jobCovers \<lparr>jx = 1, jy = 1, jw = 3, jh = 3, jpal = 0, jidx = 0\<rparr> 3 3
   \<and> \<not> inBounds (NewRGBA 2 2) 3 3"
proof -
  let ?job = "\<lparr>jx = 1, jy = 1, jw = 3, jh = 3, jpal = 0, jidx = 0\<rparr>"
  have p: "paintLeafJobsParallel 1 (NewRGBA 2 2) [[RGBA 1 2 3 255]] [?job]
       = Inr \<lparr>rw = 2, rh = 2, pix = [RGBA 0 0 0 0, RGBA 0 0 0 0, RGBA 0 0 0 0, RGBA 1 2 3 255]\<rparr>"
    by code_simp
  have q: "pixOffset (NewRGBA 2 2) 1 1 = 3" "inBounds (NewRGBA 2 2) 1 1" "jobCovers ?job 1 1"
     "jobCovers ?job 3 3" "\<not> inBounds (NewRGBA 2 2) 3 3"
    by (simp_all add: pixOffset_def inBounds_def NewRGBA_def jobCovers_def)
  from paint_writes_in_bounds [OF p]
  have "rw (NewRGBA 2 2) = 2" "rh (NewRGBA 2 2) = 2" "length (pix (NewRGBA 2 2)) = 4"
    by simp_all
  with p q show ?thesis by simp
qed

section \<open>Block analysis\<close>

lemma luma_range: "0 \<le> luma c \<and> luma c \<le> 255"
proof -
  define n where "n = 299 * uint (colR c) + 587 * uint (colG c) + 114 * uint (colB c) + 500"
  have "uint (colR c) \<le> 255" "uint (colG c) \<le> 255" "uint (colB c) \<le> 255"
    using uint_bounded [of "colR c"] uint_bounded [of "colG c"] uint_bounded [of "colB c"] by simp_all
  moreover have "0 \<le> uint (colR c)" "0 \<le> uint (colG c)" "0 \<le> uint (colB c)" by simp_all
  ultimately have n: "0 \<le> n" "n \<le> 255500" unfolding n_def by linarith+
  have "n div 1000 \<le> 255500 div 1000" using n(2) by (rule zdiv_mono1) simp
  moreover have "0 \<le> n div 1000" using n(1) by (simp add: pos_imp_zdiv_nonneg_iff)
  ultimately show ?thesis by (simp add: luma_def n_def)
qed

lemma stepTotal_proj:
  "minL (stepTotal l a) = min (minL a) l" "maxL (stepTotal l a) = max (maxL a) l"
  "count (stepTotal l a) = count a" "haveInner (stepTotal l a) = haveInner a"
  "haveBorder (stepTotal l a) = haveBorder a"
  "minLInner (stepTotal l a) = minLInner a" "maxLInner (stepTotal l a) = maxLInner a"
  "minLBorder (stepTotal l a) = minLBorder a" "maxLBorder (stepTotal l a) = maxLBorder a"
  by (simp_all add: stepTotal_def Let_def min_def max_def)

lemma stepBorder_proj:
  "minL (stepBorder l a) = minL a" "maxL (stepBorder l a) = maxL a"
  "count (stepBorder l a) = count a" "haveInner (stepBorder l a) = haveInner a"
  "haveBorder (stepBorder l a) = True"
  "minLInner (stepBorder l a) = minLInner a" "maxLInner (stepBorder l a) = maxLInner a"
  "minLBorder (stepBorder l a) = min (minLBorder a) l" "maxLBorder (stepBorder l a) = max (maxLBorder a) l"
  by (simp_all add: stepBorder_def Let_def min_def max_def)

lemma stepInner_proj:
  "minL (stepInner l a) = minL a" "maxL (stepInner l a) = maxL a"
  "count (stepInner l a) = count a" "haveInner (stepInner l a) = True"
  "haveBorder (stepInner l a) = haveBorder a"
  "minLInner (stepInner l a) = min (minLInner a) l" "maxLInner (stepInner l a) = max (maxLInner a) l"
  "minLBorder (stepInner l a) = minLBorder a" "maxLBorder (stepInner l a) = maxLBorder a"
  by (simp_all add: stepInner_def Let_def min_def max_def)

lemma stepSums_proj:
  "minL (stepSums c a) = minL a" "maxL (stepSums c a) = maxL a"
  "count (stepSums c a) = count a + 1" "haveInner (stepSums c a) = haveInner a"
  "haveBorder (stepSums c a) = haveBorder a"
  "minLInner (stepSums c a) = minLInner a" "maxLInner (stepSums c a) = maxLInner a"
  "minLBorder (stepSums c a) = minLBorder a" "maxLBorder (stepSums c a) = maxLBorder a"
  by (simp_all add: stepSums_def)

lemmas step_proj = stepTotal_proj stepBorder_proj stepInner_proj stepSums_proj

lemma analyzeStep_minL:
  "minL (analyzeStep img x y w h yy xx a) =
     (if inBounds img (x + xx) (y + yy) then min (minL a) (luma (RGBAAt img (x + xx) (y + yy))) else minL a)"
  by (simp add: analyzeStep_def Let_def step_proj)

lemma analyzeStep_maxL:
  "maxL (analyzeStep img x y w h yy xx a) =
     (if inBounds img (x + xx) (y + yy) then max (maxL a) (luma (RGBAAt img (x + xx) (y + yy))) else maxL a)"
  by (simp add: analyzeStep_def Let_def step_proj)

lemma analyzeStep_count:
  "count (analyzeStep img x y w h yy xx a) =
     (if inBounds img (x + xx) (y + yy) then count a + 1 else count a)"
  by (simp add: analyzeStep_def Let_def step_proj)

lemma analyzeStep_haveInner:
  "haveInner (analyzeStep img x y w h yy xx a) =
     (haveInner a \<or> (inBounds img (x + xx) (y + yy) \<and> \<not> (xx = 0 \<or> yy = 0 \<or> xx = w - 1 \<or> yy = h - 1)))"
  by (simp add: analyzeStep_def Let_def step_proj)

text \<open>The two nested loops of the scan visit the offsets of the block row by row.\<close>

lemma analyzeScan_rows:
  "fold (\<lambda>yy a. fold (\<lambda>xx a. f yy xx a) xs a) ys a0 =
   fold (\<lambda>p a. f (fst p) (snd p) a) (concat (map (\<lambda>yy. map (Pair yy) xs) ys)) a0"
  by (induction ys arbitrary: a0) (simp_all add: fold_map comp_def)

abbreviation scanStep :: "raster \<Rightarrow> int \<Rightarrow> int \<Rightarrow> int \<Rightarrow> int \<Rightarrow> nat \<times> nat \<Rightarrow> blockAcc \<Rightarrow> blockAcc" where
  "scanStep img x y w h \<equiv> (\<lambda>p a. analyzeStep img x y w h (int (fst p)) (int (snd p)) a)"

lemma scan_minL_le: "minL (fold (scanStep img x y w h) ps a) \<le> minL a"
proof (induction ps arbitrary: a)
  case Nil
  show ?case by simp
next
  case (Cons p ps)
  have "minL (scanStep img x y w h p a) \<le> minL a"
    by (simp add: analyzeStep_minL)
  then show ?case using Cons.IH [of "scanStep img x y w h p a"] by simp
qed

lemma scan_maxL_ge: "maxL a \<le> maxL (fold (scanStep img x y w h) ps a)"
proof (induction ps arbitrary: a)
  case Nil
  show ?case by simp
next
  case (Cons p ps)
  have "maxL a \<le> maxL (scanStep img x y w h p a)"
    by (simp add: analyzeStep_maxL)
  then show ?case using Cons.IH [of "scanStep img x y w h p a"] by simp
qed

lemma scan_count_mono: "count a \<le> count (fold (scanStep img x y w h) ps a)"
proof (induction ps arbitrary: a)
  case Nil
  show ?case by simp
next
  case (Cons p ps)
  have "count a \<le> count (scanStep img x y w h p a)"
    by (simp add: analyzeStep_count)
  then show ?case using Cons.IH [of "scanStep img x y w h p a"] by simp
qed

lemma scan_pixel:
  assumes "p \<in> set ps" "inBounds img (x + int (snd p)) (y + int (fst p))"
  shows "minL (fold (scanStep img x y w h) ps a) \<le> luma (RGBAAt img (x + int (snd p)) (y + int (fst p)))
       \<and> luma (RGBAAt img (x + int (snd p)) (y + int (fst p))) \<le> maxL (fold (scanStep img x y w h) ps a)
       \<and> count a < count (fold (scanStep img x y w h) ps a)"
  using assms(1)
proof (induction ps arbitrary: a)
  case Nil
  then show ?case by simp
next
  case (Cons q qs)
  let ?a = "scanStep img x y w h q a"
  let ?l = "luma (RGBAAt img (x + int (snd p)) (y + int (fst p)))"
  show ?case
  proof (cases "p = q")
    case True
    have "minL ?a \<le> ?l" "?l \<le> maxL ?a" "count a < count ?a"
      using assms(2) True by (simp_all add: analyzeStep_minL analyzeStep_maxL analyzeStep_count)
    moreover have "minL (fold (scanStep img x y w h) qs ?a) \<le> minL ?a"
      "maxL ?a \<le> maxL (fold (scanStep img x y w h) qs ?a)"
      "count ?a \<le> count (fold (scanStep img x y w h) qs ?a)"
      by (rule scan_minL_le scan_maxL_ge scan_count_mono)+
    ultimately show ?thesis by simp
  next
    case False
    then have "p \<in> set qs" using Cons.prems by simp
    moreover have "count a \<le> count ?a" by (simp add: analyzeStep_count)
    ultimately show ?thesis using Cons.IH [of ?a] by simp
  qed
qed

lemma scan_haveInner:
  assumes "haveInner (fold (scanStep img x y w h) ps a)"
  shows "haveInner a \<or>
     (\<exists>p \<in> set ps. \<not> (int (snd p) = 0 \<or> int (fst p) = 0 \<or> int (snd p) = w - 1 \<or> int (fst p) = h - 1))"
  using assms
proof (induction ps arbitrary: a)
  case Nil
  then show ?case by simp
next
  case (Cons q qs)
  let ?a = "scanStep img x y w h q a"
  have "haveInner (fold (scanStep img x y w h) qs ?a)" using Cons.prems by simp
  from Cons.IH [OF this]
  consider "haveInner ?a"
    | "\<exists>p \<in> set qs. \<not> (int (snd p) = 0 \<or> int (fst p) = 0 \<or> int (snd p) = w - 1 \<or> int (fst p) = h - 1)"
    by blast
  then show ?case
  proof cases
    case 1
    then have "haveInner a \<or> \<not> (int (snd q) = 0 \<or> int (fst q) = 0 \<or> int (snd q) = w - 1 \<or> int (fst q) = h - 1)"
      unfolding analyzeStep_haveInner by blast
    then show ?thesis by (metis list.set_intros(1))
  next
    case 2
    then show ?thesis by (metis list.set_intros(2))
  qed
qed

lemma goDiv_nonneg: "0 \<le> a \<Longrightarrow> 0 < b \<Longrightarrow> goDiv a b = a div b"
  by (cases "a = 0") (simp_all add: goDiv_def)

lemma set_blockOffsets: "(a, b) \<in> set (blockOffsets w h) \<longleftrightarrow> a < nat h \<and> b < nat w"
  by (force simp: blockOffsets_def)

lemma analyzeScan_flat:
  "analyzeScan img x y w h =
     fold (scanStep img x y w h) (blockOffsets w h) blockAcc0"
  unfolding analyzeScan_def blockOffsets_def
  by (rule analyzeScan_rows [where f = "\<lambda>yy xx a. analyzeStep img x y w h (int yy) (int xx) a"])

lemma analyzeScan_empty:
  assumes "w \<le> 0 \<or> h \<le> 0"
  shows "analyzeScan img x y w h = blockAcc0"
proof -
  have "blockOffsets w h = []"
  proof (cases "blockOffsets w h")
    case Nil
    then show ?thesis .
  next
    case (Cons p ps)
    then have "(fst p, snd p) \<in> set (blockOffsets w h)" by simp
    then have "fst p < nat h \<and> snd p < nat w" by (simp only: set_blockOffsets)
    then show ?thesis using assms by auto
  qed
  then show ?thesis by (simp add: analyzeScan_flat)
qed

lemma analyzeBlock_single:
  "fst (analyzeBlock img x y 1 1) = 0"
proof -
  have scan: "analyzeScan img x y 1 1 = analyzeStep img x y 1 1 0 0 blockAcc0"
    by (simp add: analyzeScan_def)
  show ?thesis
  proof (cases "inBounds img x y")
    case False
    then have "analyzeScan img x y 1 1 = blockAcc0"
      by (simp add: scan analyzeStep_def)
    then show ?thesis by (simp add: analyzeBlock_def blockAcc0_def)
  next
    case True
    let ?l = "luma (RGBAAt img x y)"
    have "minL (analyzeScan img x y 1 1) = min 255 ?l" "maxL (analyzeScan img x y 1 1) = max 0 ?l"
      using True by (simp_all add: scan analyzeStep_minL analyzeStep_maxL blockAcc0_def)
    then have "maxL (analyzeScan img x y 1 1) - minL (analyzeScan img x y 1 1) = 0"
      using luma_range [of "RGBAAt img x y"] by simp
    then show ?thesis by (simp add: analyzeBlock_def Let_def)
  qed
qed

text \<open>A block with spread has at least two pixels.\<close>

lemma energy_nonzero_size:
  assumes "fst (analyzeBlock img x y w h) \<noteq> 0"
  shows "1 \<le> w \<and> 1 \<le> h \<and> (2 \<le> w \<or> 2 \<le> h)"
proof -
  have "\<not> (w \<le> 0 \<or> h \<le> 0)"
  proof
    assume "w \<le> 0 \<or> h \<le> 0"
    then have "analyzeScan img x y w h = blockAcc0" by (rule analyzeScan_empty)
    then have "fst (analyzeBlock img x y w h) = 0" by (simp add: analyzeBlock_def blockAcc0_def)
    then show False using assms by simp
  qed
  moreover have "\<not> (w = 1 \<and> h = 1)"
    using assms analyzeBlock_single [of img x y] by auto
  ultimately show ?thesis by linarith
qed

text \<open>Inner spread needs an inner pixel, so three rows and three columns.\<close>

lemma inner_energy_size:
  assumes "fst (snd (snd (analyzeBlock img x y w h))) \<noteq> 0"
  shows "3 \<le> w \<and> 3 \<le> h"
proof -
  have "haveInner (analyzeScan img x y w h)"
    using assms by (auto simp: analyzeBlock_def Let_def split: if_splits)
  then have "haveInner blockAcc0 \<or> (\<exists>p \<in> set (blockOffsets w h).
      \<not> (int (snd p) = 0 \<or> int (fst p) = 0 \<or> int (snd p) = w - 1 \<or> int (fst p) = h - 1))"
    unfolding analyzeScan_flat by (rule scan_haveInner)
  then obtain p where p: "p \<in> set (blockOffsets w h)"
      "\<not> (int (snd p) = 0 \<or> int (fst p) = 0 \<or> int (snd p) = w - 1 \<or> int (fst p) = h - 1)"
    by (auto simp: blockAcc0_def)
  from p(1) have "snd p < nat w" "fst p < nat h"
    using set_blockOffsets [of "fst p" "snd p" w h] by simp_all
  with p(2) show ?thesis by auto
qed

text \<open>Two pixels of the block that differ in luma give it spread.\<close>

lemma energy_of_two_pixels:
  assumes "0 \<le> xx1" "xx1 < w" "0 \<le> yy1" "yy1 < h" "inBounds img (x + xx1) (y + yy1)"
      and "0 \<le> xx2" "xx2 < w" "0 \<le> yy2" "yy2 < h" "inBounds img (x + xx2) (y + yy2)"
      and "luma (RGBAAt img (x + xx1) (y + yy1)) < luma (RGBAAt img (x + xx2) (y + yy2))"
  shows "0 < fst (analyzeBlock img x y w h)"
proof -
  let ?ps = "blockOffsets w h"
  let ?a = "analyzeScan img x y w h"
  have m1: "(nat yy1, nat xx1) \<in> set ?ps" and m2: "(nat yy2, nat xx2) \<in> set ?ps"
    using assms by (simp_all add: set_blockOffsets)
  have "minL ?a \<le> luma (RGBAAt img (x + xx1) (y + yy1)) \<and> count blockAcc0 < count ?a"
    using scan_pixel [OF m1, of img x y w h blockAcc0] assms unfolding analyzeScan_flat by simp
  moreover have "luma (RGBAAt img (x + xx2) (y + yy2)) \<le> maxL ?a"
    using scan_pixel [OF m2, of img x y w h blockAcc0] assms unfolding analyzeScan_flat by simp
  ultimately have "count ?a \<noteq> 0" "0 < maxL ?a - minL ?a"
    using assms(11) by (simp_all add: blockAcc0_def)
  then show ?thesis by (simp add: analyzeBlock_def Let_def)
qed

section \<open>The classifier\<close>

text \<open>The four ways a call of the classifier goes, read off its defining equation.\<close>

lemma collect_leaf:
  assumes "analyzeBlock img x y w h = (e, be, ie, avg)"
      and "(w \<le> minBlock params \<and> h \<le> minBlock params) \<or> e = 0
        \<or> (\<not> edgeDominated params w h be ie \<and> e \<le> maxGrad params
            \<and> w \<le> 4 * minBlock params \<and> h \<le> 4 * minBlock params)"
  shows "collectRegionColors img x y w h params (leaves, pattern) = Some (leaves @ [avg], pattern @ [True])"
  using assms(2)
  by (subst collectRegionColors.simps) (auto simp: assms(1))

lemma collect_splitW:
  assumes "analyzeBlock img x y w h = (e, be, ie, avg)"
      and "\<not> (w \<le> minBlock params \<and> h \<le> minBlock params)" "e \<noteq> 0"
      and "\<not> (\<not> edgeDominated params w h be ie \<and> e \<le> maxGrad params
               \<and> w \<le> 4 * minBlock params \<and> h \<le> 4 * minBlock params)"
      and "w \<ge> h \<and> goDiv w 2 \<ge> minBlock params"
  shows "collectRegionColors img x y w h params (leaves, pattern) =
           Option.bind (collectRegionColors img x y (goDiv w 2) h params (leaves, pattern @ [False]))
             (\<lambda>st. collectRegionColors img (x + goDiv w 2) y (w - goDiv w 2) h params st)"
  by (subst collectRegionColors.simps)
     (simp only: prod.case assms(1) assms(2) assms(3) assms(4) assms(5) if_False if_True Let_def simp_thms)

lemma collect_forced:
  assumes "analyzeBlock img x y w h = (e, be, ie, avg)"
      and "\<not> (w \<le> minBlock params \<and> h \<le> minBlock params)" "e \<noteq> 0"
      and "\<not> (\<not> edgeDominated params w h be ie \<and> e \<le> maxGrad params
               \<and> w \<le> 4 * minBlock params \<and> h \<le> 4 * minBlock params)"
      and "\<not> (w \<ge> h \<and> goDiv w 2 \<ge> minBlock params)" "goDiv h 2 < minBlock params"
  shows "collectRegionColors img x y w h params (leaves, pattern) = Some (leaves @ [avg], pattern @ [True])"
  by (subst collectRegionColors.simps)
     (simp only: prod.case assms(1) assms(2) assms(3) assms(4) assms(5) assms(6) if_False if_True Let_def simp_thms)

lemma collect_splitH:
  assumes "analyzeBlock img x y w h = (e, be, ie, avg)"
      and "\<not> (w \<le> minBlock params \<and> h \<le> minBlock params)" "e \<noteq> 0"
      and "\<not> (\<not> edgeDominated params w h be ie \<and> e \<le> maxGrad params
               \<and> w \<le> 4 * minBlock params \<and> h \<le> 4 * minBlock params)"
      and "\<not> (w \<ge> h \<and> goDiv w 2 \<ge> minBlock params)" "\<not> goDiv h 2 < minBlock params"
  shows "collectRegionColors img x y w h params (leaves, pattern) =
           Option.bind (collectRegionColors img x y w (goDiv h 2) params (leaves, pattern @ [False]))
             (\<lambda>st. collectRegionColors img x (y + goDiv h 2) w (h - goDiv h 2) params st)"
  by (subst collectRegionColors.simps)
     (simp only: prod.case assms(1) assms(2) assms(3) assms(4) assms(5) assms(6) if_False if_True Let_def simp_thms)

text \<open>
  C7. The recursion of the classifier ends: for every raster, every region (of any
  position and size, so for every width and height of at least 1) and every parameter
  record, \<^verbatim>\<open>collectRegionColors\<close> returns.  A region is split only when it has luma
  spread, hence at least two pixels, and then both halves are smaller.
\<close>

theorem collectRegionColors_terminates:
  "\<exists>r. collectRegionColors img x y w h params st = Some r"
proof (induction "nat w + nat h" arbitrary: x y w h st rule: less_induct)
  case less
  obtain leaves pattern where st: "st = (leaves, pattern)" by (cases st)
  obtain e be ie avg where ab: "analyzeBlock img x y w h = (e, be, ie, avg)"
    by (cases "analyzeBlock img x y w h")
  let ?mb = "minBlock params"
  consider (leaf) "(w \<le> ?mb \<and> h \<le> ?mb) \<or> e = 0
        \<or> (\<not> edgeDominated params w h be ie \<and> e \<le> maxGrad params \<and> w \<le> 4 * ?mb \<and> h \<le> 4 * ?mb)"
    | (splitW) "\<not> (w \<le> ?mb \<and> h \<le> ?mb)" "e \<noteq> 0"
        "\<not> (\<not> edgeDominated params w h be ie \<and> e \<le> maxGrad params \<and> w \<le> 4 * ?mb \<and> h \<le> 4 * ?mb)"
        "w \<ge> h \<and> goDiv w 2 \<ge> ?mb"
    | (forced) "\<not> (w \<le> ?mb \<and> h \<le> ?mb)" "e \<noteq> 0"
        "\<not> (\<not> edgeDominated params w h be ie \<and> e \<le> maxGrad params \<and> w \<le> 4 * ?mb \<and> h \<le> 4 * ?mb)"
        "\<not> (w \<ge> h \<and> goDiv w 2 \<ge> ?mb)" "goDiv h 2 < ?mb"
    | (splitH) "\<not> (w \<le> ?mb \<and> h \<le> ?mb)" "e \<noteq> 0"
        "\<not> (\<not> edgeDominated params w h be ie \<and> e \<le> maxGrad params \<and> w \<le> 4 * ?mb \<and> h \<le> 4 * ?mb)"
        "\<not> (w \<ge> h \<and> goDiv w 2 \<ge> ?mb)" "\<not> goDiv h 2 < ?mb"
    by blast
  then show ?case
  proof cases
    case leaf
    then show ?thesis
      using collect_leaf [OF ab] unfolding st by blast
  next
    case forced
    then show ?thesis
      using collect_forced [OF ab] unfolding st by blast
  next
    case splitW
    have sz: "1 \<le> w" "1 \<le> h" "2 \<le> w \<or> 2 \<le> h"
      using energy_nonzero_size [of img x y w h] splitW(2) ab by simp_all
    then have w2: "2 \<le> w" using splitW(4) by linarith
    have gd: "goDiv w 2 = w div 2" using w2 by (simp add: goDiv_nonneg)
    have m1: "nat (w div 2) + nat h < nat w + nat h" using w2 by linarith
    have m2: "nat (w - w div 2) + nat h < nat w + nat h" using w2 by linarith
    obtain st1 where st1: "collectRegionColors img x y (w div 2) h params (leaves, pattern @ [False]) = Some st1"
      using less [OF m1] by blast
    obtain st2 where st2: "collectRegionColors img (x + w div 2) y (w - w div 2) h params st1 = Some st2"
      using less [OF m2] by blast
    have "collectRegionColors img x y w h params st = Some st2"
      unfolding st collect_splitW [OF ab splitW] gd using st1 st2 by simp
    then show ?thesis by blast
  next
    case splitH
    have sz: "1 \<le> w" "1 \<le> h" "2 \<le> w \<or> 2 \<le> h"
      using energy_nonzero_size [of img x y w h] splitH(2) ab by simp_all
    have h2: "2 \<le> h"
    proof (rule ccontr)
      assume "\<not> 2 \<le> h"
      then have h1: "h = 1" and w2: "2 \<le> w" using sz by linarith+
      have "goDiv w 2 = w div 2" "goDiv h 2 = 0" using w2 h1 by (simp_all add: goDiv_nonneg)
      moreover have "1 \<le> w div 2" using w2 by linarith
      ultimately show False using splitH(4,5) h1 w2 by linarith
    qed
    have gd: "goDiv h 2 = h div 2" using h2 by (simp add: goDiv_nonneg)
    have m1: "nat w + nat (h div 2) < nat w + nat h" using h2 by linarith
    have m2: "nat w + nat (h - h div 2) < nat w + nat h" using h2 by linarith
    obtain st1 where st1: "collectRegionColors img x y w (h div 2) params (leaves, pattern @ [False]) = Some st1"
      using less [OF m1] by blast
    obtain st2 where st2: "collectRegionColors img x (y + h div 2) w (h - h div 2) params st1 = Some st2"
      using less [OF m2] by blast
    have "collectRegionColors img x y w h params st = Some st2"
      unfolding st collect_splitH [OF ab splitH] gd using st1 st2 by simp
    then show ?thesis by blast
  qed
qed

theorem collectRegionColors_terminates_witness:
  "\<exists>r. collectRegionColors sampleEdgeBlock 0 0 4 3 (paramsForQuality 50) ([], []) = Some r"
  using collectRegionColors_terminates [of sampleEdgeBlock 0 0 4 3 "paramsForQuality 50" "([], [])"]
  by simp

text \<open>
  C4. For a region with positive total energy the flag \<^verbatim>\<open>edgeDominated\<close> is set exactly
  when border and inner energy are positive, the border energy is at least twice the
  inner energy and one side exceeds twice \<^verbatim>\<open>minBlock\<close>.  A region so marked is never made
  a leaf: the classifier appends \<open>False\<close> to the pattern and recurses into the two halves
  (by width when \<open>w \<ge> h\<close> and \<open>w / 2 \<ge> minBlock\<close>, by height otherwise).  A region not so
  marked whose energy is at most \<^verbatim>\<open>maxGrad\<close> and whose sides are at most four times
  \<^verbatim>\<open>minBlock\<close> is a leaf.
\<close>

theorem edgeDominated_region_splits:
  assumes "analyzeBlock img x y w h = (energy, borderEnergy, innerEnergy, avg)"
      and "energy > 0"
  shows "(edgeDominated params w h borderEnergy innerEnergy \<longleftrightarrow>
            borderEnergy > 0 \<and> innerEnergy > 0 \<and> borderEnergy \<ge> 2 * innerEnergy
            \<and> (w > 2 * minBlock params \<or> h > 2 * minBlock params))
       \<and> (edgeDominated params w h borderEnergy innerEnergy \<longrightarrow>
            collectRegionColors img x y w h params (leaves, pattern) =
              (if w \<ge> h \<and> goDiv w 2 \<ge> minBlock params
               then Option.bind (collectRegionColors img x y (goDiv w 2) h params (leaves, pattern @ [False]))
                      (\<lambda>st. collectRegionColors img (x + goDiv w 2) y (w - goDiv w 2) h params st)
               else Option.bind (collectRegionColors img x y w (goDiv h 2) params (leaves, pattern @ [False]))
                      (\<lambda>st. collectRegionColors img x (y + goDiv h 2) w (h - goDiv h 2) params st)))
       \<and> (\<not> edgeDominated params w h borderEnergy innerEnergy \<and> energy \<le> maxGrad params
            \<and> w \<le> 4 * minBlock params \<and> h \<le> 4 * minBlock params \<longrightarrow>
            collectRegionColors img x y w h params (leaves, pattern) =
              Some (leaves @ [avg], pattern @ [True]))"
proof (intro conjI impI)
  show "edgeDominated params w h borderEnergy innerEnergy \<longleftrightarrow>
            borderEnergy > 0 \<and> innerEnergy > 0 \<and> borderEnergy \<ge> 2 * innerEnergy
            \<and> (w > 2 * minBlock params \<or> h > 2 * minBlock params)"
    by (auto simp: edgeDominated_def)
next
  assume "\<not> edgeDominated params w h borderEnergy innerEnergy \<and> energy \<le> maxGrad params
            \<and> w \<le> 4 * minBlock params \<and> h \<le> 4 * minBlock params"
  then show "collectRegionColors img x y w h params (leaves, pattern) = Some (leaves @ [avg], pattern @ [True])"
    using collect_leaf [OF assms(1)] by blast
next
  let ?mb = "minBlock params"
  assume ed: "edgeDominated params w h borderEnergy innerEnergy"
  then have c: "innerEnergy > 0" "w > 2 * ?mb \<or> h > 2 * ?mb"
    by (auto simp: edgeDominated_def split: if_splits)
  have sz: "3 \<le> w" "3 \<le> h"
    using inner_energy_size [of img x y w h] assms(1) c(1) by simp_all
  have gd: "goDiv w 2 = w div 2" "goDiv h 2 = h div 2"
    using sz by (simp_all add: goDiv_nonneg)
  have n1: "\<not> (w \<le> ?mb \<and> h \<le> ?mb)" using c(2) sz by linarith
  have n2: "energy \<noteq> 0" using assms(2) by simp
  have n3: "\<not> (\<not> edgeDominated params w h borderEnergy innerEnergy \<and> energy \<le> maxGrad params
               \<and> w \<le> 4 * ?mb \<and> h \<le> 4 * ?mb)" using ed by simp
  show "collectRegionColors img x y w h params (leaves, pattern) =
              (if w \<ge> h \<and> goDiv w 2 \<ge> minBlock params
               then Option.bind (collectRegionColors img x y (goDiv w 2) h params (leaves, pattern @ [False]))
                      (\<lambda>st. collectRegionColors img (x + goDiv w 2) y (w - goDiv w 2) h params st)
               else Option.bind (collectRegionColors img x y w (goDiv h 2) params (leaves, pattern @ [False]))
                      (\<lambda>st. collectRegionColors img x (y + goDiv h 2) w (h - goDiv h 2) params st))"
  proof (cases "w \<ge> h \<and> goDiv w 2 \<ge> ?mb")
    case True
    show ?thesis
      unfolding collect_splitW [OF assms(1) n1 n2 n3 True] by (simp only: True if_True simp_thms)
  next
    case False
    have n5: "\<not> goDiv h 2 < ?mb"
      using False c(2) sz unfolding gd by linarith
    show ?thesis
      unfolding collect_splitH [OF assms(1) n1 n2 n3 False n5] by (simp only: False if_False simp_thms)
  qed
qed

theorem edgeDominated_region_splits_witness:
  "analyzeBlock sampleEdgeBlock 0 0 4 3 = (40, 40, 10, RGBA 19 19 19 255)
   \<and> edgeDominated (paramsForQuality 50) 4 3 40 10
   \<and> maxGrad (paramsForQuality 50) = 51
   \<and> collectRegionColors sampleEdgeBlock 0 0 4 3 (paramsForQuality 50) ([], []) =
       Option.bind (collectRegionColors sampleEdgeBlock 0 0 2 3 (paramsForQuality 50) ([], [False]))
         (\<lambda>st. collectRegionColors sampleEdgeBlock 2 0 2 3 (paramsForQuality 50) st)"
proof -
  have ab: "analyzeBlock sampleEdgeBlock 0 0 4 3 = (40, 40, 10, RGBA 19 19 19 255)"
    by code_simp
  have ed: "edgeDominated (paramsForQuality 50) 4 3 40 10"
    by code_simp
  have mg: "maxGrad (paramsForQuality 50) = 51" "minBlock (paramsForQuality 50) = 1"
    by (simp_all add: paramsForQuality_def)
  have gd: "goDiv 4 2 = 2"
    by (simp add: goDiv_def)
  show ?thesis
    using edgeDominated_region_splits [OF ab, of "paramsForQuality 50" "[]" "[]"] ab ed mg gd
    by simp
qed

section \<open>The palette builder\<close>

lemma closeColor_specClose: "closeColor a b tol = specClose tol a b"
  by (simp add: closeColor_def specClose_def Let_def abs_if)

lemma findClose_firstClose:
  "findClose lf tol j p = (case firstClose tol lf p of None \<Rightarrow> - 1 | Some k \<Rightarrow> j + int k)"
  if "0 \<le> j"
  using that
proof (induction p arbitrary: j)
  case Nil
  then show ?case by simp
next
  case (Cons pc pcs)
  show ?case
  proof (cases "specClose tol lf pc")
    case True
    then show ?thesis by (simp add: closeColor_specClose)
  next
    case False
    have "findClose lf tol (j + 1) pcs = (case firstClose tol lf pcs of None \<Rightarrow> - 1 | Some k \<Rightarrow> j + 1 + int k)"
      using Cons.IH [of "j + 1"] Cons.prems by simp
    then show ?thesis using False
      by (simp add: closeColor_specClose split: option.splits)
  qed
qed

lemma firstClose_less: "firstClose tol c p = Some j \<Longrightarrow> j < length p"
  by (induction p arbitrary: j) (auto split: if_splits)

lemma firstClose_close: "firstClose tol c p = Some j \<Longrightarrow> specClose tol c (p ! j)"
  by (induction p arbitrary: j) (auto split: if_splits)

lemma specPalette_append:
  "specPalette tol p (xs @ ys) = specPalette tol (specPalette tol p xs) ys"
  by (induction xs arbitrary: p) (simp_all split: option.splits)

lemma specIndices_append:
  "specIndices tol p (xs @ ys) = specIndices tol p xs @ specIndices tol (specPalette tol p xs) ys"
  by (induction xs arbitrary: p) (simp_all split: option.splits)

lemma length_specIndices: "length (specIndices tol p xs) = length xs"
  by (induction xs arbitrary: p) (simp_all split: option.splits)

lemma length_specPalette_le: "length (specPalette tol p xs) \<le> length p + length xs"
proof (induction xs arbitrary: p)
  case Nil
  show ?case by simp
next
  case (Cons c cs)
  show ?case
    using Cons.IH [of p] Cons.IH [of "p @ [c]"] by (simp split: option.splits)
qed

lemma length_specPalette_ge: "length p \<le> length (specPalette tol p xs)"
proof (induction xs arbitrary: p)
  case Nil
  show ?case by simp
next
  case (Cons c cs)
  show ?case
    using Cons.IH [of p] Cons.IH [of "p @ [c]"] by (simp split: option.splits)
qed

lemma specIndices_less:
  "i < length xs \<Longrightarrow> specIndices tol p xs ! i < length (specPalette tol p xs)"
proof (induction xs arbitrary: p i)
  case Nil
  then show ?case by simp
next
  case (Cons c cs)
  show ?case
  proof (cases "firstClose tol c p")
    case None
    show ?thesis
    proof (cases i)
      case 0
      then show ?thesis using None length_specPalette_ge [of "p @ [c]" tol cs] by simp
    next
      case (Suc i')
      then show ?thesis using None Cons.IH [of i' "p @ [c]"] Cons.prems by simp
    qed
  next
    case (Some j)
    show ?thesis
    proof (cases i)
      case 0
      then show ?thesis
        using Some firstClose_less [OF Some] length_specPalette_ge [of p tol cs] by simp
    next
      case (Suc i')
      then show ?thesis using Some Cons.IH [of i' p] Cons.prems by simp
    qed
  qed
qed

lemma buildPalettesLoop_append:
  "buildPalettesLoop params i (xs @ ys) st =
     (case buildPalettesLoop params i xs st of
        Inl e \<Rightarrow> Inl e
      | Inr st' \<Rightarrow> buildPalettesLoop params (i + length xs) ys st')"
  by (induction xs arbitrary: i st) (simp_all split: sum.splits)

lemma take_drop_take: "a + j \<le> n \<Longrightarrow> take j (drop a (take n xs)) = take j (drop a xs)"
  by (simp add: drop_take min_def)

lemma replicate_update_head:
  "(xs @ replicate (Suc r) a)[length xs := b] = xs @ [b] @ replicate r a"
  by (simp add: list_update_append)

text \<open>One iteration, once the test for a new group is decided.\<close>

lemma buildPalettesStep_eval:
  assumes "(if i > 0 \<and> i mod 256 = 0 then (pals @ [[]], cur + 1) else (pals, cur)) = (pals1, c)"
      and "pals1 ! c = p" and "length p < 256"
  shows "buildPalettesStep params i x (pals, refs, cur) =
           Inr (pals1[c := (case firstClose (colorTol params) x p of Some j \<Rightarrow> p | None \<Rightarrow> p @ [x])],
                refs[i := \<lparr>pal = word_of_nat c,
                           idx = word_of_nat (case firstClose (colorTol params) x p of
                                                Some j \<Rightarrow> j | None \<Rightarrow> length p)\<rparr>],
                c)"
proof -
  have found: "findClose x (colorTol params) 0 p =
      (case firstClose (colorTol params) x p of None \<Rightarrow> - 1 | Some k \<Rightarrow> int k)"
    using findClose_firstClose [of 0 x "colorTol params" p] by (simp split: option.splits)
  have upd: "pals1[c := p] = pals1" using assms(2) by (metis list_update_id)
  show ?thesis
  proof (cases "firstClose (colorTol params) x p")
    case None
    then show ?thesis
      unfolding buildPalettesStep_def prod.case assms(1) Let_def assms(2) found
      using assms(3) by simp
  next
    case (Some j)
    then show ?thesis
      unfolding buildPalettesStep_def prod.case assms(1) Let_def assms(2) found
      using upd by simp
  qed
qed

text \<open>The state of the loop of \<^verbatim>\<open>buildPalettes\<close> after \<open>n\<close> leaves.\<close>

lemma buildPalettesStep_spec:
  fixes params :: codec2Params and leaves :: "rgba list" and n :: nat
  assumes n: "n < length leaves"
  defines "tol \<equiv> colorTol params"
  shows "buildPalettesStep params n (leaves ! n)
           (map (\<lambda>k. specPalette tol [] (leafGroup (take n leaves) k)) [0..<(n - 1) div 256 + 1],
            map (specRef tol leaves) [0..<n] @ replicate (length leaves - n) \<lparr>pal = 0, idx = 0\<rparr>,
            (n - 1) div 256)
       = Inr (map (\<lambda>k. specPalette tol [] (leafGroup (take (Suc n) leaves) k)) [0..<n div 256 + 1],
              map (specRef tol leaves) [0..<Suc n] @ replicate (length leaves - Suc n) \<lparr>pal = 0, idx = 0\<rparr>,
              n div 256)"
proof -
  define c m where "c = n div 256" and "m = n mod 256"
  define ys where "ys = drop (256 * c) leaves"
  define gp where "gp = take m ys"
  define x where "x = leaves ! n"
  define p where "p = specPalette tol [] gp"
  define refs where "refs = map (specRef tol leaves) [0..<n] @ replicate (length leaves - n) \<lparr>pal = 0, idx = 0\<rparr>"
  have nc: "n = 256 * c + m" "m < 256" by (simp_all add: c_def m_def)
  have mlen: "m < length ys" using n nc by (simp add: ys_def)
  have x_ys: "x = ys ! m" using n nc by (simp add: x_def ys_def)
  have lg: "length gp = m" using mlen by (simp add: gp_def)
  have grp_n: "leafGroup (take n leaves) c = gp"
  proof -
    have "drop (256 * c) (take n leaves) = take m ys"
      using nc by (simp add: drop_take ys_def)
    then show ?thesis using nc by (simp add: leafGroup_def gp_def)
  qed
  have grp_Sn: "leafGroup (take (Suc n) leaves) c = gp @ [x]"
  proof -
    have "drop (256 * c) (take (Suc n) leaves) = take (Suc m) ys"
      using nc by (simp add: drop_take ys_def)
    also have "\<dots> = gp @ [x]"
      using mlen by (simp add: take_Suc_conv_app_nth gp_def x_ys)
    finally show ?thesis using nc lg by (simp add: leafGroup_def)
  qed
  have grp_old: "leafGroup (take (Suc n) leaves) k = leafGroup (take n leaves) k" if "k < c" for k
  proof -
    have "256 * k + 256 \<le> n" using that nc by simp
    then show ?thesis by (simp add: leafGroup_def take_drop_take)
  qed
  have grp_full: "leafGroup leaves c = (gp @ [x]) @ take (255 - m) (drop (Suc m) ys)"
  proof -
    have "take 256 ys = take (Suc m) ys @ take (256 - Suc m) (drop (Suc m) ys)"
      using nc(2) by (metis Suc_leI le_add_diff_inverse take_add)
    moreover have "take (Suc m) ys = gp @ [x]"
      using mlen by (simp add: take_Suc_conv_app_nth gp_def x_ys)
    ultimately show ?thesis by (simp add: leafGroup_def ys_def)
  qed
  have lp: "length p \<le> m"
    using length_specPalette_le [of tol "[]" gp] lg by (simp add: p_def)
  define ix where "ix = (case firstClose tol x p of Some j \<Rightarrow> j | None \<Rightarrow> length p)"
  define p' where "p' = (case firstClose tol x p of Some j \<Rightarrow> p | None \<Rightarrow> p @ [x])"
  have pal_Sn: "specPalette tol [] (gp @ [x]) = p'"
    by (simp add: specPalette_append p_def [symmetric] p'_def split: option.splits)
  have idx_Sn: "specIndices tol [] (gp @ [x]) = specIndices tol [] gp @ [ix]"
    by (simp add: specIndices_append p_def [symmetric] ix_def split: option.splits)
  have ref_n: "specRef tol leaves n = \<lparr>pal = word_of_nat c, idx = word_of_nat ix\<rparr>"
  proof -
    have "specIndices tol [] (leafGroup leaves c) ! m = ix"
      unfolding grp_full specIndices_append [of tol "[]" "gp @ [x]"] idx_Sn
      by (simp add: nth_append length_specIndices lg)
    then show ?thesis by (simp add: specRef_def c_def [symmetric] m_def [symmetric])
  qed
  text \<open>the palettes after the test for a new group\<close>
  define pals1 where "pals1 = map (\<lambda>k. specPalette tol [] (leafGroup (take n leaves) k)) [0..<c + 1]"
  have start: "(if n > 0 \<and> n mod 256 = 0
         then (map (\<lambda>k. specPalette tol [] (leafGroup (take n leaves) k)) [0..<(n - 1) div 256 + 1] @ [[]],
               (n - 1) div 256 + 1)
         else (map (\<lambda>k. specPalette tol [] (leafGroup (take n leaves) k)) [0..<(n - 1) div 256 + 1],
               (n - 1) div 256)) = (pals1, c)"
  proof (cases "n > 0 \<and> n mod 256 = 0")
    case True
    then have m0: "m = 0" by (simp add: m_def)
    have c1: "(n - 1) div 256 + 1 = c" using True nc m0 by (cases c) simp_all
    have "gp = []" using m0 by (simp add: gp_def)
    then have "specPalette tol [] (leafGroup (take n leaves) c) = []" by (simp add: grp_n)
    then show ?thesis using True c1 by (simp add: pals1_def)
  next
    case False
    then have "(n - 1) div 256 = c"
    proof (cases "n = 0")
      case True
      then show ?thesis by (simp add: c_def)
    next
      case n0: False
      then have "m \<noteq> 0" using False by (simp add: m_def)
      then have "n - 1 = 256 * c + (m - 1)" "m - 1 < 256" using nc by simp_all
      then show ?thesis by simp
    qed
    then show ?thesis using False by (simp add: pals1_def)
  qed
  have p_at: "pals1 ! c = p" by (simp add: pals1_def grp_n p_def del: upt_Suc)
  have new_pals: "pals1[c := p'] = map (\<lambda>k. specPalette tol [] (leafGroup (take (Suc n) leaves) k)) [0..<c + 1]"
  proof (rule nth_equalityI)
    show "length (pals1[c := p']) = length (map (\<lambda>k. specPalette tol [] (leafGroup (take (Suc n) leaves) k)) [0..<c + 1])"
      by (simp add: pals1_def)
  next
    fix k
    assume "k < length (pals1[c := p'])"
    then have k: "k \<le> c" by (simp add: pals1_def)
    show "pals1[c := p'] ! k = map (\<lambda>k. specPalette tol [] (leafGroup (take (Suc n) leaves) k)) [0..<c + 1] ! k"
    proof (cases "k = c")
      case True
      then show ?thesis
        using nth_map_upt [of c "c + 1" 0 "\<lambda>k. specPalette tol [] (leafGroup (take (Suc n) leaves) k)"]
        by (simp add: pals1_def grp_Sn pal_Sn del: upt_Suc)
    next
      case False
      then have kc: "k < c" using k by simp
      then show ?thesis
        using nth_map_upt [of k "c + 1" 0 "\<lambda>k. specPalette tol [] (leafGroup (take (Suc n) leaves) k)"]
          nth_map_upt [of k "c + 1" 0 "\<lambda>k. specPalette tol [] (leafGroup (take n leaves) k)"]
        by (simp add: pals1_def grp_old del: upt_Suc)
    qed
  qed
  have new_refs: "refs[n := \<lparr>pal = word_of_nat c, idx = word_of_nat ix\<rparr>]
      = map (specRef tol leaves) [0..<Suc n] @ replicate (length leaves - Suc n) \<lparr>pal = 0, idx = 0\<rparr>"
  proof -
    have "length leaves - n = Suc (length leaves - Suc n)" using n by simp
    then show ?thesis
      using replicate_update_head [of "map (specRef tol leaves) [0..<n]" "length leaves - Suc n"
          "\<lparr>pal = 0, idx = 0\<rparr>" "\<lparr>pal = word_of_nat c, idx = word_of_nat ix\<rparr>"]
      by (simp add: refs_def ref_n)
  qed
  have "buildPalettesStep params n x
          (map (\<lambda>k. specPalette tol [] (leafGroup (take n leaves) k)) [0..<(n - 1) div 256 + 1], refs, (n - 1) div 256)
        = Inr (pals1[c := p'], refs[n := \<lparr>pal = word_of_nat c, idx = word_of_nat ix\<rparr>], c)"
  proof -
    have "length p < 256" using lp nc(2) by linarith
    from buildPalettesStep_eval [where params = params, folded tol_def, OF start p_at this]
    show ?thesis unfolding p'_def ix_def .
  qed
  then have "buildPalettesStep params n x
          (map (\<lambda>k. specPalette tol [] (leafGroup (take n leaves) k)) [0..<(n - 1) div 256 + 1], refs, (n - 1) div 256)
        = Inr (map (\<lambda>k. specPalette tol [] (leafGroup (take (Suc n) leaves) k)) [0..<c + 1],
               map (specRef tol leaves) [0..<Suc n] @ replicate (length leaves - Suc n) \<lparr>pal = 0, idx = 0\<rparr>, c)"
    by (simp only: new_pals new_refs)
  then show ?thesis
    by (simp only: x_def refs_def c_def)
qed

lemma buildPalettesLoop_spec:
  fixes params :: codec2Params and leaves :: "rgba list"
  defines "tol \<equiv> colorTol params"
  assumes "n \<le> length leaves"
  shows "buildPalettesLoop params 0 (take n leaves)
           ([[]], replicate (length leaves) \<lparr>pal = 0, idx = 0\<rparr>, 0)
       = Inr (map (\<lambda>k. specPalette tol [] (leafGroup (take n leaves) k)) [0..<(n - 1) div 256 + 1],
              map (specRef tol leaves) [0..<n] @ replicate (length leaves - n) \<lparr>pal = 0, idx = 0\<rparr>,
              (n - 1) div 256)"
  using assms(2)
proof (induction n)
  case 0
  show ?case by (simp add: leafGroup_def)
next
  case (Suc n)
  then have n: "n < length leaves" by simp
  have t: "take (Suc n) leaves = take n leaves @ [leaves ! n]"
    using n by (rule take_Suc_conv_app_nth)
  have IH: "buildPalettesLoop params 0 (take n leaves)
           ([[]], replicate (length leaves) \<lparr>pal = 0, idx = 0\<rparr>, 0)
       = Inr (map (\<lambda>k. specPalette tol [] (leafGroup (take n leaves) k)) [0..<(n - 1) div 256 + 1],
              map (specRef tol leaves) [0..<n] @ replicate (length leaves - n) \<lparr>pal = 0, idx = 0\<rparr>,
              (n - 1) div 256)"
    using Suc.IH n by simp
  have ln: "length (take n leaves) = n" using n by simp
  have "buildPalettesLoop params 0 (take (Suc n) leaves)
           ([[]], replicate (length leaves) \<lparr>pal = 0, idx = 0\<rparr>, 0)
      = buildPalettesLoop params 0 (take n leaves @ [leaves ! n])
           ([[]], replicate (length leaves) \<lparr>pal = 0, idx = 0\<rparr>, 0)"
    by (simp only: t)
  also have "\<dots> = buildPalettesLoop params n [leaves ! n]
       (map (\<lambda>k. specPalette tol [] (leafGroup (take n leaves) k)) [0..<(n - 1) div 256 + 1],
        map (specRef tol leaves) [0..<n] @ replicate (length leaves - n) \<lparr>pal = 0, idx = 0\<rparr>,
        (n - 1) div 256)"
    by (simp only: buildPalettesLoop_append IH sum.case ln add_0)
  also have "\<dots> = Inr (map (\<lambda>k. specPalette tol [] (leafGroup (take (Suc n) leaves) k)) [0..<n div 256 + 1],
              map (specRef tol leaves) [0..<Suc n] @ replicate (length leaves - Suc n) \<lparr>pal = 0, idx = 0\<rparr>,
              n div 256)"
    by (simp only: buildPalettesLoop.simps buildPalettesStep_spec [OF n, of params, folded tol_def] sum.case)
  finally show ?case by (simp only: diff_Suc_1)
qed

text \<open>\<^verbatim>\<open>buildPalettes\<close> computes the palettes and references of the rule, and never fails.\<close>

lemma buildPalettes_spec:
  "buildPalettes leaves params =
     Inr (specPals (colorTol params) leaves, map (specRef (colorTol params) leaves) [0..<length leaves])"
proof (cases "length leaves = 0")
  case True
  then show ?thesis by (simp add: buildPalettes_def specPals_def)
next
  case False
  then obtain l where l: "length leaves = Suc l" by (cases "length leaves") auto
  have "(length leaves - 1) div 256 + 1 = (length leaves + 255) div 256"
    unfolding l by simp
  then show ?thesis
    using False buildPalettesLoop_spec [of "length leaves" leaves params]
    by (simp add: buildPalettes_def specPals_def del: upt_Suc)
qed

lemma specPalette_replicate:
  assumes "specClose tol c c"
  shows "specPalette tol [c] (replicate n c) = [c]"
  using assms by (induction n) simp_all

lemma specPalette_replicate_Nil:
  assumes "specClose tol c c" "0 < n"
  shows "specPalette tol [] (replicate n c) = [c]"
proof -
  obtain n' where "n = Suc n'" using assms(2) by (cases n) auto
  then show ?thesis using specPalette_replicate [OF assms(1), of n'] by simp
qed

lemma length_leafGroup: "length (leafGroup leaves k) = min 256 (length leaves - 256 * k)"
  by (simp add: leafGroup_def)

lemma concat_leafGroups: "concat (map (leafGroup leaves) [0..<m]) = take (256 * m) leaves"
proof (induction m)
  case 0
  show ?case by simp
next
  case (Suc m)
  have "take (256 * m) leaves @ take 256 (drop (256 * m) leaves) = take (256 * m + 256) leaves"
    by (simp add: take_add)
  then show ?case using Suc by (simp add: leafGroup_def add.commute)
qed

lemma specPals_nth:
  assumes "k < (length leaves + 255) div 256"
  shows "specPals tol leaves ! k = specPalette tol [] (leafGroup leaves k)"
  using assms nth_map_upt [of k "(length leaves + 255) div 256" 0 "\<lambda>k. specPalette tol [] (leafGroup leaves k)"]
  by (simp add: specPals_def)

lemma length_specPals: "length (specPals tol leaves) = (length leaves + 255) div 256"
  by (simp add: specPals_def)

lemma group_index:
  assumes "i < length leaves"
  shows "i div 256 < (length leaves + 255) div 256" "i mod 256 < length (leafGroup leaves (i div 256))"
proof -
  have i: "i = 256 * (i div 256) + i mod 256" by simp
  show "i div 256 < (length leaves + 255) div 256"
  proof -
    have "256 * (i div 256) + 256 \<le> length leaves + 255" using assms i by linarith
    then have "(256 * (i div 256) + 256) div 256 \<le> (length leaves + 255) div 256"
      by (rule div_le_mono)
    then show ?thesis by simp
  qed
  have "i mod 256 < length leaves - 256 * (i div 256)" using assms i by linarith
  then show "i mod 256 < length (leafGroup leaves (i div 256))"
    by (simp add: length_leafGroup)
qed

lemma specPalette_group_bound: "length (specPalette tol [] (leafGroup leaves k)) \<le> 256"
  using length_specPalette_le [of tol "[]" "leafGroup leaves k"] length_leafGroup [of leaves k]
  by simp

lemma specIndex_bound:
  assumes "i < length leaves"
  shows "specIndices tol [] (leafGroup leaves (i div 256)) ! (i mod 256)
           < length (specPalette tol [] (leafGroup leaves (i div 256)))"
  by (rule specIndices_less [OF group_index(2) [OF assms]])

lemma specRef_fields:
  assumes "i < length leaves"
  shows "pal (specRef tol leaves i) = word_of_nat (i div 256)"
    and "unat (idx (specRef tol leaves i)) = specIndices tol [] (leafGroup leaves (i div 256)) ! (i mod 256)"
proof -
  show "pal (specRef tol leaves i) = word_of_nat (i div 256)" by (simp add: specRef_def)
  have "specIndices tol [] (leafGroup leaves (i div 256)) ! (i mod 256) < 256"
    using specIndex_bound [OF assms, of tol] specPalette_group_bound [of tol leaves "i div 256"] by linarith
  then show "unat (idx (specRef tol leaves i)) = specIndices tol [] (leafGroup leaves (i div 256)) ! (i mod 256)"
    by (simp add: specRef_def unat_of_nat)
qed

text \<open>
  The rule of the palette builder.  For every leaf sequence \<^verbatim>\<open>buildPalettes\<close> succeeds: the
  leaves fall into consecutive groups of at most 256, one palette per group, built from the
  empty palette by reusing the first entry within \<^verbatim>\<open>colorTol\<close> on every channel and appending
  otherwise; every palette has at most 256 entries; the index of leaf \<open>i\<close> is the one the
  rule gives and is in range of palette \<open>i div 256\<close>; the field \<^verbatim>\<open>pal\<close> is \<^verbatim>\<open>uint16(i / 256)\<close>.
\<close>

lemma buildPalettes_rule:
  "\<exists>pals refs. buildPalettes leaves params = Inr (pals, refs)
     \<and> length pals = (length leaves + 255) div 256
     \<and> length refs = length leaves
     \<and> concat (map (leafGroup leaves) [0..<length pals]) = leaves
     \<and> (\<forall>k < length pals.
           pals ! k = specPalette (colorTol params) [] (leafGroup leaves k)
         \<and> length (leafGroup leaves k) \<le> 256 \<and> length (pals ! k) \<le> 256)
     \<and> (\<forall>i < length leaves.
           pal (refs ! i) = word_of_nat (i div 256)
         \<and> unat (idx (refs ! i)) = specIndices (colorTol params) [] (leafGroup leaves (i div 256)) ! (i mod 256)
         \<and> i div 256 < length pals
         \<and> unat (idx (refs ! i)) < length (pals ! (i div 256)))"
proof -
  let ?tol = "colorTol params"
  let ?pals = "specPals ?tol leaves"
  let ?refs = "map (specRef ?tol leaves) [0..<length leaves]"
  have r: "?refs ! i = specRef ?tol leaves i" if "i < length leaves" for i
    using that nth_map_upt [of i "length leaves" 0 "specRef ?tol leaves"] by simp
  have 1: "buildPalettes leaves params = Inr (?pals, ?refs)" by (rule buildPalettes_spec)
  have 2: "length ?pals = (length leaves + 255) div 256" by (rule length_specPals)
  have 3: "length ?refs = length leaves" by simp
  have 4: "concat (map (leafGroup leaves) [0..<length ?pals]) = leaves"
  proof -
    have "(length leaves + 255) mod 256 < 256" by simp
    moreover have "256 * ((length leaves + 255) div 256) + (length leaves + 255) mod 256 = length leaves + 255"
      by (rule mult_div_mod_eq)
    ultimately have "length leaves \<le> 256 * ((length leaves + 255) div 256)" by linarith
    then show ?thesis by (simp add: concat_leafGroups 2)
  qed
  have 5: "\<forall>k < length ?pals. ?pals ! k = specPalette ?tol [] (leafGroup leaves k)
         \<and> length (leafGroup leaves k) \<le> 256 \<and> length (?pals ! k) \<le> 256"
  proof (intro allI impI)
    fix k assume "k < length ?pals"
    then have k: "k < (length leaves + 255) div 256" by (simp only: 2)
    have "length (specPalette ?tol [] (leafGroup leaves k)) \<le> 256"
      by (rule specPalette_group_bound)
    then show "?pals ! k = specPalette ?tol [] (leafGroup leaves k)
         \<and> length (leafGroup leaves k) \<le> 256 \<and> length (?pals ! k) \<le> 256"
      by (simp add: specPals_nth [OF k] length_leafGroup)
  qed
  have 6: "\<forall>i < length leaves.
           pal (?refs ! i) = word_of_nat (i div 256)
         \<and> unat (idx (?refs ! i)) = specIndices ?tol [] (leafGroup leaves (i div 256)) ! (i mod 256)
         \<and> i div 256 < length ?pals
         \<and> unat (idx (?refs ! i)) < length (?pals ! (i div 256))"
  proof (intro allI impI)
    fix i assume i: "i < length leaves"
    have k: "i div 256 < (length leaves + 255) div 256" by (rule group_index(1) [OF i])
    show "pal (?refs ! i) = word_of_nat (i div 256)
         \<and> unat (idx (?refs ! i)) = specIndices ?tol [] (leafGroup leaves (i div 256)) ! (i mod 256)
         \<and> i div 256 < length ?pals
         \<and> unat (idx (?refs ! i)) < length (?pals ! (i div 256))"
      unfolding r [OF i] specPals_nth [OF k] 2 specRef_fields [OF i]
      using k specIndex_bound [OF i, of ?tol] by simp
  qed
  show ?thesis
    using 1 2 3 4 5 6 by blast
qed

text \<open>
  C5.  The reference of a leaf is the pair \<^verbatim>\<open>leafRef{pal, idx}\<close> (\<^verbatim>\<open>pal\<close>: the index of the
  palette, \<^verbatim>\<open>idx\<close>: the index of the colour inside that palette).  \<^verbatim>\<open>buildPalettes\<close> stores
  \<^verbatim>\<open>uint16(curPalID)\<close> with no test of the range: on 16777218 leaves it succeeds, the last
  leaf belongs to palette 65536, and its reference reads (palette 0, index 1) while palette 0
  has one entry.  The reference does not resolve to an entry of the palette it names.
\<close>

theorem buildPalettes_ref_wraps:
  "\<exists>pals refs.
      buildPalettes (replicate 16777216 (RGBA 0 0 0 255) @ [RGBA 0 0 0 255, RGBA 255 255 255 255])
        (paramsForQuality 50) = Inr (pals, refs)
    \<and> length pals = 65537
    \<and> pal (refs ! 16777217) = 0
    \<and> unat (idx (refs ! 16777217)) = 1
    \<and> length (pals ! unat (pal (refs ! 16777217))) = 1
    \<and> \<not> unat (idx (refs ! 16777217)) < length (pals ! unat (pal (refs ! 16777217)))"
proof -
  define c d where "c = RGBA 0 0 0 255" and "d = RGBA 255 255 255 255"
  define leaves where "leaves = replicate 16777216 c @ [c, d]"
  define tol where "tol = colorTol (paramsForQuality 50)"
  have tol: "tol = 7" by (simp add: tol_def paramsForQuality_def)
  have L: "length leaves = 16777218" by (simp add: leaves_def)
  have cc: "specClose tol c c" and dc: "\<not> specClose tol d c"
    by (simp_all add: specClose_def tol c_def d_def)
  have g0: "leafGroup leaves 0 = replicate 256 c"
    by (simp add: leafGroup_def leaves_def)
  have gl: "leafGroup leaves 65536 = [c, d]"
    by (simp add: leafGroup_def leaves_def)
  have p0: "specPals tol leaves ! 0 = [c]"
  proof -
    have "0 < (length leaves + 255) div 256" by (simp add: L)
    then show ?thesis
      by (simp only: specPals_nth g0) (simp add: specPalette_replicate_Nil [OF cc])
  qed
  have i: "(16777217::nat) < length leaves" by (simp add: L)
  have dm: "(16777217::nat) div 256 = 65536" "(16777217::nat) mod 256 = 1" by simp_all
  have ix: "specIndices tol [] (leafGroup leaves 65536) ! 1 = 1"
    using dc by (simp add: gl)
  have r: "map (specRef tol leaves) [0..<length leaves] ! 16777217 = specRef tol leaves 16777217"
    using nth_map_upt [of 16777217 "length leaves" 0 "specRef tol leaves"] i by simp
  have rp: "pal (specRef tol leaves 16777217) = 0"
    unfolding specRef_fields(1) [OF i] dm by simp
  have ri: "unat (idx (specRef tol leaves 16777217)) = 1"
    unfolding specRef_fields(2) [OF i] dm ix ..
  have "buildPalettes leaves (paramsForQuality 50) =
          Inr (specPals tol leaves, map (specRef tol leaves) [0..<length leaves])"
    unfolding tol_def by (rule buildPalettes_spec)
  moreover have "length (specPals tol leaves) = 65537"
    by (simp add: length_specPals L)
  moreover have "pal (map (specRef tol leaves) [0..<length leaves] ! 16777217) = 0"
    by (simp only: r rp)
  moreover have "unat (idx (map (specRef tol leaves) [0..<length leaves] ! 16777217)) = 1"
    by (simp only: r ri)
  moreover have "length (specPals tol leaves ! unat (pal (map (specRef tol leaves) [0..<length leaves] ! 16777217))) = 1"
    by (simp only: r rp) (simp add: p0)
  ultimately show ?thesis
    unfolding leaves_def c_def d_def by (intro exI conjI) (assumption | simp)+
qed

section \<open>A raster that Encode rejects\<close>

text \<open>The spread of a block is at least the luma difference of any two of its pixels.\<close>

lemma energy_ge_diff:
  assumes "0 \<le> xx1" "xx1 < w" "0 \<le> yy1" "yy1 < h" "inBounds img (x + xx1) (y + yy1)"
      and "0 \<le> xx2" "xx2 < w" "0 \<le> yy2" "yy2 < h" "inBounds img (x + xx2) (y + yy2)"
  shows "luma (RGBAAt img (x + xx2) (y + yy2)) - luma (RGBAAt img (x + xx1) (y + yy1))
           \<le> fst (analyzeBlock img x y w h)"
proof -
  let ?ps = "blockOffsets w h"
  let ?a = "analyzeScan img x y w h"
  have m1: "(nat yy1, nat xx1) \<in> set ?ps" and m2: "(nat yy2, nat xx2) \<in> set ?ps"
    using assms by (simp_all add: set_blockOffsets)
  have "minL ?a \<le> luma (RGBAAt img (x + xx1) (y + yy1)) \<and> count blockAcc0 < count ?a"
    using scan_pixel [OF m1, of img x y w h blockAcc0] assms unfolding analyzeScan_flat by simp
  moreover have "luma (RGBAAt img (x + xx2) (y + yy2)) \<le> maxL ?a"
    using scan_pixel [OF m2, of img x y w h blockAcc0] assms unfolding analyzeScan_flat by simp
  ultimately have "count ?a \<noteq> 0"
      "luma (RGBAAt img (x + xx2) (y + yy2)) - luma (RGBAAt img (x + xx1) (y + yy1)) \<le> maxL ?a - minL ?a"
    by (simp_all add: blockAcc0_def)
  then show ?thesis by (simp add: analyzeBlock_def Let_def)
qed

text \<open>The average colour of a block of one pixel is the pixel, made opaque.\<close>

lemma analyzeBlock_single_avg:
  assumes "inBounds img x y"
  shows "snd (snd (snd (analyzeBlock img x y 1 1))) =
           RGBA (colR (RGBAAt img x y)) (colG (RGBAAt img x y)) (colB (RGBAAt img x y)) 255"
proof -
  have scan: "analyzeScan img x y 1 1 = analyzeStep img x y 1 1 0 0 blockAcc0"
    by (simp add: analyzeScan_def)
  let ?c = "RGBAAt img x y"
  have "count (analyzeScan img x y 1 1) = 1" "sumR (analyzeScan img x y 1 1) = uint (colR ?c)"
    "sumG (analyzeScan img x y 1 1) = uint (colG ?c)" "sumB (analyzeScan img x y 1 1) = uint (colB ?c)"
    using assms
    by (simp_all add: scan analyzeStep_def Let_def stepSums_def stepTotal_def stepBorder_def blockAcc0_def)
  then show ?thesis
    by (simp add: analyzeBlock_def Let_def goDiv_def)
qed

lemma RGBAAt_row:
  assumes "rh img = 1" "0 \<le> x" "x < int (rw img)"
  shows "inBounds img x 0" "RGBAAt img x 0 = pix img ! nat x"
  using assms by (simp_all add: inBounds_def RGBAAt_def pixOffset_def)

text \<open>
  A raster of one row in which neighbouring pixels differ in luma by more than \<^verbatim>\<open>maxGrad\<close>:
  the classifier makes every pixel a leaf.
\<close>

lemma take1_drop: "n < length xs \<Longrightarrow> take 1 (drop n xs) = [xs ! n]"
  by (simp add: Cons_nth_drop_Suc [symmetric])

lemma take_drop_split:
  "take a (drop n xs) @ take b (drop (n + a) xs) = take (a + b) (drop n xs)"
  by (simp add: take_add add.commute)

lemma collect_row:
  assumes mb: "minBlock params = 1"
      and row: "rh img = 1" and wf: "length (pix img) = rw img"
      and adj: "\<forall>i. Suc i < rw img \<longrightarrow>
                 max 0 (maxGrad params) < \<bar>luma (pix img ! i) - luma (pix img ! Suc i)\<bar>"
      and alpha: "\<forall>i < rw img. colA (pix img ! i) = 255"
      and x: "0 \<le> x" "1 \<le> w" "x + w \<le> int (rw img)"
  shows "\<exists>pat. collectRegionColors img x 0 w 1 params (leaves, pattern) =
           Some (leaves @ take (nat w) (drop (nat x) (pix img)), pat)"
  using x
proof (induction "nat w" arbitrary: x w leaves pattern rule: less_induct)
  case less
  obtain e be ie avg where ab: "analyzeBlock img x 0 w 1 = (e, be, ie, avg)"
    by (cases "analyzeBlock img x 0 w 1")
  show ?case
  proof (cases "w = 1")
    case True
    have ib: "inBounds img x 0" and px: "RGBAAt img x 0 = pix img ! nat x"
      using RGBAAt_row [OF row, of x] less.prems True by simp_all
    have xl: "nat x < rw img" using less.prems True by simp
    have "avg = RGBA (colR (pix img ! nat x)) (colG (pix img ! nat x)) (colB (pix img ! nat x)) 255"
      using analyzeBlock_single_avg [OF ib] ab True px by simp
    also have "\<dots> = pix img ! nat x"
      using alpha xl by (cases "pix img ! nat x") auto
    finally have avg: "avg = pix img ! nat x" .
    have "collectRegionColors img x 0 w 1 params (leaves, pattern) = Some (leaves @ [avg], pattern @ [True])"
      using collect_leaf [OF ab, of params leaves pattern] True mb by simp
    moreover have "take (nat w) (drop (nat x) (pix img)) = [pix img ! nat x]"
      using take1_drop [of "nat x" "pix img"] xl wf True by simp
    ultimately show ?thesis using avg by simp
  next
    case False
    then have w2: "2 \<le> w" using less.prems by linarith
    have ib0: "inBounds img (x + 0) (0 + 0)" and ib1: "inBounds img (x + 1) (0 + 0)"
      using RGBAAt_row(1) [OF row, of x] RGBAAt_row(1) [OF row, of "x + 1"] less.prems w2 by simp_all
    have p0: "RGBAAt img (x + 0) (0 + 0) = pix img ! nat x"
      and p1: "RGBAAt img (x + 1) (0 + 0) = pix img ! Suc (nat x)"
      using RGBAAt_row(2) [OF row, of x] RGBAAt_row(2) [OF row, of "x + 1"] less.prems w2
      by (simp_all add: nat_add_distrib)
    have "Suc (nat x) < rw img" using less.prems w2 by linarith
    then have d: "max 0 (maxGrad params) < \<bar>luma (pix img ! nat x) - luma (pix img ! Suc (nat x))\<bar>"
      using adj by blast
    have "luma (pix img ! Suc (nat x)) - luma (pix img ! nat x) \<le> fst (analyzeBlock img x 0 w 1)"
      using energy_ge_diff [of 0 w 0 1 img x 0 1 0] ib0 ib1 w2 unfolding p0 p1 by simp
    then have le1: "luma (pix img ! Suc (nat x)) - luma (pix img ! nat x) \<le> e" by (simp add: ab)
    have "luma (pix img ! nat x) - luma (pix img ! Suc (nat x)) \<le> fst (analyzeBlock img x 0 w 1)"
      using energy_ge_diff [of 1 w 0 1 img x 0 0 0] ib0 ib1 w2 unfolding p0 p1 by simp
    then have le2: "luma (pix img ! nat x) - luma (pix img ! Suc (nat x)) \<le> e" by (simp add: ab)
    have e: "max 0 (maxGrad params) < e" using d le1 le2 by linarith
    have ie: "ie = 0" using inner_energy_size [of img x 0 w 1] ab by auto
    have ned: "\<not> edgeDominated params w 1 be ie" by (simp add: edgeDominated_def ie)
    have gd: "goDiv w 2 = w div 2" using w2 by (simp add: goDiv_nonneg)
    have c1: "\<not> (w \<le> minBlock params \<and> 1 \<le> minBlock params)" using w2 mb by simp
    have c2: "e \<noteq> 0" using e by simp
    have c3: "\<not> (\<not> edgeDominated params w 1 be ie \<and> e \<le> maxGrad params
               \<and> w \<le> 4 * minBlock params \<and> 1 \<le> 4 * minBlock params)" using e by simp
    have c4: "w \<ge> 1 \<and> goDiv w 2 \<ge> minBlock params" using w2 mb gd by simp
    have split: "collectRegionColors img x 0 w 1 params (leaves, pattern) =
           Option.bind (collectRegionColors img x 0 (w div 2) 1 params (leaves, pattern @ [False]))
             (\<lambda>st. collectRegionColors img (x + w div 2) 0 (w - w div 2) 1 params st)"
      using collect_splitW [OF ab c1 c2 c3 c4, of leaves pattern] unfolding gd .
    have m1: "nat (w div 2) < nat w" and m2: "nat (w - w div 2) < nat w" using w2 by linarith+
    obtain pat1 where r1: "collectRegionColors img x 0 (w div 2) 1 params (leaves, pattern @ [False]) =
        Some (leaves @ take (nat (w div 2)) (drop (nat x) (pix img)), pat1)"
      using less.hyps [OF m1, of x leaves "pattern @ [False]"] less.prems w2 by force
    obtain pat2 where r2: "collectRegionColors img (x + w div 2) 0 (w - w div 2) 1 params
          (leaves @ take (nat (w div 2)) (drop (nat x) (pix img)), pat1) =
        Some ((leaves @ take (nat (w div 2)) (drop (nat x) (pix img)))
                @ take (nat (w - w div 2)) (drop (nat (x + w div 2)) (pix img)), pat2)"
      using less.hyps [OF m2, of "x + w div 2" "leaves @ take (nat (w div 2)) (drop (nat x) (pix img))" pat1]
        less.prems w2 by force
    have "nat (x + w div 2) = nat x + nat (w div 2)" "nat (w div 2) + nat (w - w div 2) = nat w"
      using less.prems w2 by linarith+
    then have "take (nat (w div 2)) (drop (nat x) (pix img))
          @ take (nat (w - w div 2)) (drop (nat (x + w div 2)) (pix img))
        = take (nat w) (drop (nat x) (pix img))"
      using take_drop_split [of "nat (w div 2)" "nat x" "pix img" "nat (w - w div 2)"] by simp
    then show ?thesis
      unfolding split r1 using r2 by simp
  qed
qed

lemma firstClose_None: "(\<forall>q \<in> set p. \<not> specClose tol c q) \<Longrightarrow> firstClose tol c p = None"
  by (induction p) simp_all

text \<open>Leaves no two of which are within tolerance each get a palette entry of their own.\<close>

lemma specPalette_far:
  assumes "\<forall>c \<in> set cs. \<forall>q \<in> set p. \<not> specClose tol c q"
      and "\<forall>i < length cs. \<forall>j < i. \<not> specClose tol (cs ! i) (cs ! j)"
  shows "specPalette tol p cs = p @ cs"
  using assms
proof (induction cs arbitrary: p)
  case Nil
  show ?case by simp
next
  case (Cons c cs)
  have none: "firstClose tol c p = None"
    using Cons.prems(1) by (intro firstClose_None) simp
  have a1: "\<forall>c' \<in> set cs. \<forall>q \<in> set (p @ [c]). \<not> specClose tol c' q"
  proof (intro ballI)
    fix c' q assume c': "c' \<in> set cs" and q: "q \<in> set (p @ [c])"
    show "\<not> specClose tol c' q"
    proof (cases "q = c")
      case True
      obtain k where k: "k < length cs" "cs ! k = c'" using c' by (auto simp: in_set_conv_nth)
      have "\<not> specClose tol ((c # cs) ! Suc k) ((c # cs) ! 0)"
        using Cons.prems(2) k(1) by (metis length_Cons Suc_less_eq zero_less_Suc)
      then show ?thesis using k True by simp
    next
      case False
      then show ?thesis using Cons.prems(1) c' q by simp
    qed
  qed
  have a2: "\<forall>i < length cs. \<forall>j < i. \<not> specClose tol (cs ! i) (cs ! j)"
  proof (intro allI impI)
    fix i j assume "i < length cs" "j < i"
    then have "\<not> specClose tol ((c # cs) ! Suc i) ((c # cs) ! Suc j)"
      using Cons.prems(2) by (metis length_Cons Suc_less_eq)
    then show "\<not> specClose tol (cs ! i) (cs ! j)" by simp
  qed
  show ?case using none Cons.IH [OF a1 a2] by simp
qed

lemma splitStripes_one_row: "splitStripes numCPU 1 1 = Inr [\<lparr>sy = 0, sh = 1\<rparr>]"
  by (simp add: splitStripes_def Let_def goDiv_def)

lemma luma_low: "luma (RGBA r 0 0 a) \<le> 76"
proof -
  have "uint r \<le> 255" using uint_bounded [of r] by simp
  then have "299 * uint r + 500 \<le> 76745" by linarith
  then have "(299 * uint r + 500) div 1000 \<le> 76745 div 1000" by (rule zdiv_mono1) simp
  then show ?thesis by (simp add: luma_def)
qed

lemma luma_high: "150 \<le> luma (RGBA r 255 0 a)"
proof -
  have "0 \<le> uint r" by simp
  then have "150185 \<le> 299 * uint r + 150185" by linarith
  then have "150185 div 1000 \<le> (299 * uint r + 150185) div 1000" by (rule zdiv_mono1) simp
  then show ?thesis by (simp add: luma_def)
qed

lemma sampleManyColors_pix:
  "i < 256 \<Longrightarrow> pix sampleManyColors ! i =
     RGBA (word_of_nat (2 * (i div 2))) (if even i then 0 else 255) 0 255"
  using nth_map_upt [of i 256 0 "\<lambda>i. RGBA (word_of_nat (2 * (i div 2))) (if even i then 0 else 255) 0 255"]
  by (simp add: sampleManyColors_def del: upt_rec_numeral)

lemma sampleManyColors_dims:
  "rw sampleManyColors = 256" "rh sampleManyColors = 1" "length (pix sampleManyColors) = 256"
  by (simp_all add: sampleManyColors_def del: upt_rec_numeral)

lemma sampleManyColors_adjacent:
  assumes "Suc i < 256"
  shows "1 < \<bar>luma (pix sampleManyColors ! i) - luma (pix sampleManyColors ! Suc i)\<bar>"
proof (cases "even i")
  case True
  have "luma (pix sampleManyColors ! i) \<le> 76" "150 \<le> luma (pix sampleManyColors ! Suc i)"
    using assms True by (simp_all add: sampleManyColors_pix luma_low luma_high)
  then show ?thesis by linarith
next
  case False
  have "150 \<le> luma (pix sampleManyColors ! i)" "luma (pix sampleManyColors ! Suc i) \<le> 76"
    using assms False by (simp_all add: sampleManyColors_pix luma_low luma_high)
  then show ?thesis by linarith
qed

lemma sampleManyColors_far:
  assumes "i < 256" "j < i"
  shows "\<not> specClose 1 (pix sampleManyColors ! i) (pix sampleManyColors ! j)"
proof -
  have ui: "uint (2 * word_of_nat (k div 2) :: 8 word) = 2 * int (k div 2)" if "k < 256" for k
  proof -
    have "k div 2 < 128" using that by linarith
    then have "unat (2 * word_of_nat (k div 2) :: 8 word) = 2 * (k div 2)"
      by (simp add: unat_word_ariths unat_of_nat)
    then show ?thesis by (metis of_nat_mult of_nat_numeral uint_nat)
  qed
  show ?thesis
  proof (cases "i div 2 = j div 2")
    case True
    then have "even j" "odd i" using assms(2) by presburger+
    then show ?thesis using assms by (simp add: sampleManyColors_pix specClose_def)
  next
    case False
    then have "j div 2 < i div 2" using assms(2) by (metis div_le_mono le_neq_implies_less less_imp_le)
    then have "1 < \<bar>2 * int (i div 2) - 2 * int (j div 2)\<bar>" by linarith
    then show ?thesis using assms by (simp add: sampleManyColors_pix specClose_def ui)
  qed
qed

text \<open>
  C1.  The round trip does not hold for every raster: on the one-row raster of 256
  pixels no two of which are within tolerance, at quality 100, the classifier makes every
  pixel a leaf, \<^verbatim>\<open>buildPalettes\<close> fills one palette with 256 entries, as it is built to
  allow, and \<^verbatim>\<open>Encode\<close> then rejects that palette because its size byte holds at most 255.
  This is so on every host (a raster of one row has one stripe) and for every compressor.
\<close>

theorem Encode_fails_on_256_colours:
  "Encode numCPU zstdCompress sampleManyColors 100 = Some (Inl (ErrEncodePaletteSize 256))"
proof -
  let ?p = "paramsForQuality 100"
  let ?px = "pix sampleManyColors"
  note dims = sampleManyColors_dims
  have pq: "minBlock ?p = 1" "maxGrad ?p = 1" "colorTol ?p = 1"
    by (simp_all add: paramsForQuality_def)
  have adj: "\<forall>i. Suc i < rw sampleManyColors \<longrightarrow>
      max 0 (maxGrad ?p) < \<bar>luma (?px ! i) - luma (?px ! Suc i)\<bar>"
    using sampleManyColors_adjacent by (simp add: dims pq)
  have alpha: "\<forall>i < rw sampleManyColors. colA (?px ! i) = 255"
    by (simp add: dims sampleManyColors_pix)
  obtain pat where c: "collectRegionColors sampleManyColors 0 0 256 1 ?p ([], []) = Some (?px, pat)"
    using collect_row [OF pq(1) dims(2) _ adj alpha, of 0 256 "[]" "[]"]
    by (auto simp: dims)
  have cs: "collectRegionColorsStriped numCPU sampleManyColors ?p = Some (Inr (?px, pat))"
    by (simp add: collectRegionColorsStriped_def dims pq splitStripes_one_row c)
  have far: "\<forall>i < length ?px. \<forall>j < i. \<not> specClose 1 (?px ! i) (?px ! j)"
    using sampleManyColors_far by (simp add: dims)
  have "leafGroup ?px 0 = ?px" by (simp add: leafGroup_def dims)
  then have "specPalette 1 [] (leafGroup ?px 0) = ?px"
    using specPalette_far [of ?px "[]" 1] far by simp
  moreover have "(length ?px + 255) div 256 = 1" by (simp add: dims)
  ultimately have "specPals 1 ?px = [?px]" by (simp add: specPals_def)
  then obtain refs where bp: "buildPalettes ?px ?p = Inr ([?px], refs)"
    using buildPalettes_spec [of ?px ?p] by (simp add: pq)
  have wp: "\<And>raw. writePalettes [?px] raw = Inl (ErrEncodePaletteSize 256)"
    by (simp add: dims)
  show ?thesis
    unfolding Encode_def by (simp add: Let_def cs bp dims)
qed

section \<open>Stripes and the decoding host\<close>

text \<open>
  C2.  \<^verbatim>\<open>Decode\<close> calls \<^verbatim>\<open>splitStripes(h, params.minBlock)\<close>, which reads \<^verbatim>\<open>encoderStripes\<close>
  \<^verbatim>\<open>= runtime.NumCPU()\<close> of the decoding host; the header holds the magic, the width, the
  height and the quality, and no stripe count.  The 1x2 raster (white over black) encoded at
  quality 100 on a host with one CPU is one stripe of height 2; a host with two CPUs walks
  two stripes of height 1 over the same bits and \<^verbatim>\<open>Decode\<close> fails there, while the encoding
  host decodes the raster.  The artifact of the two-CPU host is decoded by the one-CPU host,
  without an error, to a raster with both pixels white.
\<close>

theorem Decode_uses_host_stripes:
  "Encode 1 (\<lambda>bs. bs) sampleTwoPixels 100 =
      Some (Inr [66, 65, 66, 50, 0, 1, 0, 2, 100, 0, 1, 2, 255, 255, 255, 0, 0, 0, 64, 32, 32])
   \<and> splitStripes 1 2 1 = Inr [\<lparr>sy = 0, sh = 2\<rparr>]
   \<and> splitStripes 2 2 1 = Inr [\<lparr>sy = 0, sh = 1\<rparr>, \<lparr>sy = 1, sh = 1\<rparr>]
   \<and> Decode 1 Some (\<lambda>a c s n. c)
        [66, 65, 66, 50, 0, 1, 0, 2, 100, 0, 1, 2, 255, 255, 255, 0, 0, 0, 64, 32, 32]
      = Some (Inr sampleTwoPixels)
   \<and> Decode 2 Some mix
        [66, 65, 66, 50, 0, 1, 0, 2, 100, 0, 1, 2, 255, 255, 255, 0, 0, 0, 64, 32, 32]
      = Some (Inl (ErrLocalIndexRange 128 0))
   \<and> Encode 2 (\<lambda>bs. bs) sampleTwoPixels 100 = Some (Inr [66, 65, 66, 50, 0, 1, 0, 2, 100, 0, 1, 2, 255, 255, 255, 0, 0, 0, 128, 64, 64])
   \<and> Decode 1 Some mix [66, 65, 66, 50, 0, 1, 0, 2, 100, 0, 1, 2, 255, 255, 255, 0, 0, 0, 128, 64, 64]
      = Some (Inr \<lparr>rw = 1, rh = 2, pix = [RGBA 255 255 255 255, RGBA 255 255 255 255]\<rparr>)"
proof -
  have e: "Encode 1 (\<lambda>bs. bs) sampleTwoPixels 100 =
      Some (Inr [66, 65, 66, 50, 0, 1, 0, 2, 100, 0, 1, 2, 255, 255, 255, 0, 0, 0, 64, 32, 32])"
    by code_simp
  have s: "splitStripes 1 2 1 = Inr [\<lparr>sy = 0, sh = 2\<rparr>]"
      "splitStripes 2 2 1 = Inr [\<lparr>sy = 0, sh = 1\<rparr>, \<lparr>sy = 1, sh = 1\<rparr>]"
    by code_simp+
  have d1: "Decode 1 Some (\<lambda>a c s n. c)
        [66, 65, 66, 50, 0, 1, 0, 2, 100, 0, 1, 2, 255, 255, 255, 0, 0, 0, 64, 32, 32]
      = Some (Inr sampleTwoPixels)"
    by code_simp
  have d2: "Decode 2 Some mix
        [66, 65, 66, 50, 0, 1, 0, 2, 100, 0, 1, 2, 255, 255, 255, 0, 0, 0, 64, 32, 32]
      = Some (Inl (ErrLocalIndexRange 128 0))"
    by code_simp
  have e2: "Encode 2 (\<lambda>bs. bs) sampleTwoPixels 100 = Some (Inr [66, 65, 66, 50, 0, 1, 0, 2, 100, 0, 1, 2, 255, 255, 255, 0, 0, 0, 128, 64, 64])"
    by code_simp
  have d3: "Decode 1 Some mix [66, 65, 66, 50, 0, 1, 0, 2, 100, 0, 1, 2, 255, 255, 255, 0, 0, 0, 128, 64, 64]
      = Some (Inr \<lparr>rw = 1, rh = 2, pix = [RGBA 255 255 255 255, RGBA 255 255 255 255]\<rparr>)"
    by code_simp
  from e s d1 d2 e2 d3 show ?thesis by (intro conjI)
qed

section \<open>The 4x4 raster filled with one colour\<close>

lemma flat_dims: "rw sampleFlat = 4" "rh sampleFlat = 4"
  by (simp_all add: sampleFlat_def)

lemma pq50: "minBlock (paramsForQuality 50) = 1" "maxGrad (paramsForQuality 50) = 51"
  "colorTol (paramsForQuality 50) = 7"
  by (simp_all add: paramsForQuality_def)

lemma smooth_flat: "smoothEdges mix sampleFlat 51 = sampleFlat"
  by code_simp

text \<open>The stripes of a raster of height 4, by the number of CPUs.\<close>

lemma stripes_flat:
  "numCPU \<le> 1 \<Longrightarrow> splitStripes numCPU 4 1 = Inr [\<lparr>sy = 0, sh = 4\<rparr>]"
  "splitStripes 2 4 1 = Inr [\<lparr>sy = 0, sh = 2\<rparr>, \<lparr>sy = 2, sh = 2\<rparr>]"
  "splitStripes 3 4 1 = Inr [\<lparr>sy = 0, sh = 2\<rparr>, \<lparr>sy = 2, sh = 1\<rparr>, \<lparr>sy = 3, sh = 1\<rparr>]"
  "4 \<le> numCPU \<Longrightarrow> splitStripes numCPU 4 1 = Inr [\<lparr>sy = 0, sh = 1\<rparr>, \<lparr>sy = 1, sh = 1\<rparr>, \<lparr>sy = 2, sh = 1\<rparr>, \<lparr>sy = 3, sh = 1\<rparr>]"
  by (simp_all add: splitStripes_def Let_def goDiv_def stripeStep_def upt_rec numeral_nat)

lemma paint_few_cpus:
  "numCPU \<le> 1 \<Longrightarrow> paintLeafJobsParallel numCPU d p jobs = paintLeafJobsParallel 1 d p jobs"
  by (simp add: paintLeafJobsParallel_def Let_def)

lemma paint_many_cpus:
  "int (length jobs) \<le> numCPU \<Longrightarrow> 1 \<le> length jobs \<Longrightarrow>
     paintLeafJobsParallel numCPU d p jobs = paintLeafJobsParallel (int (length jobs)) d p jobs"
  by (auto simp add: paintLeafJobsParallel_def Let_def)

lemma proj_Some_Inr:
  assumes "map_option (map_sum id f) x = Some (Inr v)"
  obtains y where "x = Some (Inr y)" "f y = v"
proof (cases x)
  case None
  with assms show ?thesis by simp
next
  case (Some r)
  with assms that show ?thesis by (cases r) auto
qed

lemma collect_flat_1:
  assumes "splitStripes numCPU 4 1 = Inr [\<lparr>sy = 0, sh = 4\<rparr>]"
  shows "collectRegionColorsStriped numCPU sampleFlat (paramsForQuality 50) = Some (Inr ([RGBA 200 100 50 255], [True]))"
proof -
  have c: "collectRegionColors sampleFlat 0 0 4 4 (paramsForQuality 50) ([], []) = Some ([RGBA 200 100 50 255], [True])"
    by code_simp
  show ?thesis
    unfolding collectRegionColorsStriped_def
    by (simp add: Let_def flat_dims pq50 assms c del: collectStripes.simps)
qed

lemma build_flat_1:
  "buildPalettes [RGBA 200 100 50 255] (paramsForQuality 50) = Inr ([[RGBA 200 100 50 255]], [\<lparr>pal = 0, idx = 0\<rparr>])"
  by code_simp

lemma encode_flat_1:
  assumes "splitStripes numCPU 4 1 = Inr [\<lparr>sy = 0, sh = 4\<rparr>]"
  shows "Encode numCPU zc sampleFlat 50 =
    Some (Inr ([66, 65, 66, 50, 0, 4, 0, 4, 50] @ zc [0, 1, 1, 200, 100, 50, 128, 0]))"
proof -
  have e: "map_option (map_sum id (\<lambda>(bw, leafPos, patPos). wbuf (Flush bw)))
      (encodeStripes 4 (paramsForQuality 50) [0] [True] [\<lparr>sy = 0, sh = 4\<rparr>]
         (NewBitWriter [0, 1, 1, 200, 100, 50], 0, 0))
      = Some (Inr [0, 1, 1, 200, 100, 50, 128, 0])"
    by code_simp
  then obtain st where "encodeStripes 4 (paramsForQuality 50) [0] [True] [\<lparr>sy = 0, sh = 4\<rparr>]
         (NewBitWriter [0, 1, 1, 200, 100, 50], 0, 0) = Some (Inr st)"
      "(\<lambda>(bw, leafPos, patPos). wbuf (Flush bw)) st = [0, 1, 1, 200, 100, 50, 128, 0]"
    by (rule proj_Some_Inr)
  then obtain bw leafPos patPos where e': "encodeStripes 4 (paramsForQuality 50) [0] [True] [\<lparr>sy = 0, sh = 4\<rparr>]
         (NewBitWriter [0, 1, 1, 200, 100, 50], 0, 0) = Some (Inr (bw, leafPos, patPos))"
      "wbuf (Flush bw) = [0, 1, 1, 200, 100, 50, 128, 0]"
    by (cases st) (simp del: encodeStripes.simps)
  show ?thesis
    unfolding Encode_def
    by (simp add: Let_def flat_dims pq50 assms collect_flat_1 [OF assms] build_flat_1 e'
          magicCodec2_def putUint16_def del: encodeStripes.simps)
qed

lemma decode_flat_1:
  assumes "splitStripes numCPU 4 1 = Inr [\<lparr>sy = 0, sh = 4\<rparr>]"
      and "paintLeafJobsParallel numCPU (NewRGBA 4 4) [[RGBA 200 100 50 255]] [\<lparr>jx = 0, jy = 0, jw = 4, jh = 4, jpal = 0, jidx = 0\<rparr>] = Inr sampleFlat"
      and "\<And>bs. zd (zc bs) = Some bs"
  shows "Decode numCPU zd mix ([66, 65, 66, 50, 0, 4, 0, 4, 50] @ zc [0, 1, 1, 200, 100, 50, 128, 0]) = Some (Inr sampleFlat)"
proof -
  have d: "map_option (map_sum id (\<lambda>(br, leafCounter, jobs). jobs))
      (decodeStripes 4 (paramsForQuality 50) [[RGBA 200 100 50 255]] [\<lparr>sy = 0, sh = 4\<rparr>] (NewBitReaderFromBytes [128, 0], 0, []))
      = Some (Inr [\<lparr>jx = 0, jy = 0, jw = 4, jh = 4, jpal = 0, jidx = 0\<rparr>])"
    by code_simp
  then obtain st where "decodeStripes 4 (paramsForQuality 50) [[RGBA 200 100 50 255]] [\<lparr>sy = 0, sh = 4\<rparr>]
        (NewBitReaderFromBytes [128, 0], 0, []) = Some (Inr st)"
      "(\<lambda>(br, leafCounter, jobs). jobs) st = [\<lparr>jx = 0, jy = 0, jw = 4, jh = 4, jpal = 0, jidx = 0\<rparr>]"
    by (rule proj_Some_Inr)
  then obtain br leafCounter where d': "decodeStripes 4 (paramsForQuality 50) [[RGBA 200 100 50 255]] [\<lparr>sy = 0, sh = 4\<rparr>]
        (NewBitReaderFromBytes [128, 0], 0, []) = Some (Inr (br, leafCounter, [\<lparr>jx = 0, jy = 0, jw = 4, jh = 4, jpal = 0, jidx = 0\<rparr>]))"
    by (cases st) (simp del: decodeStripes.simps)
  show ?thesis
    unfolding Decode_def
    by (simp add: Let_def pq50 assms d' smooth_flat magicCodec2_def del: decodeStripes.simps)
qed

lemma collect_flat_2:
  assumes "splitStripes numCPU 4 1 = Inr [\<lparr>sy = 0, sh = 2\<rparr>, \<lparr>sy = 2, sh = 2\<rparr>]"
  shows "collectRegionColorsStriped numCPU sampleFlat (paramsForQuality 50) = Some (Inr ([RGBA 200 100 50 255, RGBA 200 100 50 255], [True, True]))"
proof -
  have c: "collectStripes sampleFlat 4 (paramsForQuality 50) [\<lparr>sy = 0, sh = 2\<rparr>, \<lparr>sy = 2, sh = 2\<rparr>] = Some ([RGBA 200 100 50 255, RGBA 200 100 50 255], [True, True])"
    by code_simp
  show ?thesis
    unfolding collectRegionColorsStriped_def
    by (simp add: Let_def flat_dims pq50 assms c del: collectStripes.simps)
qed

lemma build_flat_2:
  "buildPalettes [RGBA 200 100 50 255, RGBA 200 100 50 255] (paramsForQuality 50) = Inr ([[RGBA 200 100 50 255]], [\<lparr>pal = 0, idx = 0\<rparr>, \<lparr>pal = 0, idx = 0\<rparr>])"
  by code_simp

lemma encode_flat_2:
  assumes "splitStripes numCPU 4 1 = Inr [\<lparr>sy = 0, sh = 2\<rparr>, \<lparr>sy = 2, sh = 2\<rparr>]"
  shows "Encode numCPU zc sampleFlat 50 =
    Some (Inr ([66, 65, 66, 50, 0, 4, 0, 4, 50] @ zc [0, 1, 1, 200, 100, 50, 128, 64, 0]))"
proof -
  have e: "map_option (map_sum id (\<lambda>(bw, leafPos, patPos). wbuf (Flush bw)))
      (encodeStripes 4 (paramsForQuality 50) [0, 0] [True, True] [\<lparr>sy = 0, sh = 2\<rparr>, \<lparr>sy = 2, sh = 2\<rparr>]
         (NewBitWriter [0, 1, 1, 200, 100, 50], 0, 0))
      = Some (Inr [0, 1, 1, 200, 100, 50, 128, 64, 0])"
    by code_simp
  then obtain st where "encodeStripes 4 (paramsForQuality 50) [0, 0] [True, True] [\<lparr>sy = 0, sh = 2\<rparr>, \<lparr>sy = 2, sh = 2\<rparr>]
         (NewBitWriter [0, 1, 1, 200, 100, 50], 0, 0) = Some (Inr st)"
      "(\<lambda>(bw, leafPos, patPos). wbuf (Flush bw)) st = [0, 1, 1, 200, 100, 50, 128, 64, 0]"
    by (rule proj_Some_Inr)
  then obtain bw leafPos patPos where e': "encodeStripes 4 (paramsForQuality 50) [0, 0] [True, True] [\<lparr>sy = 0, sh = 2\<rparr>, \<lparr>sy = 2, sh = 2\<rparr>]
         (NewBitWriter [0, 1, 1, 200, 100, 50], 0, 0) = Some (Inr (bw, leafPos, patPos))"
      "wbuf (Flush bw) = [0, 1, 1, 200, 100, 50, 128, 64, 0]"
    by (cases st) (simp del: encodeStripes.simps)
  show ?thesis
    unfolding Encode_def
    by (simp add: Let_def flat_dims pq50 assms collect_flat_2 [OF assms] build_flat_2 e'
          magicCodec2_def putUint16_def del: encodeStripes.simps)
qed

lemma decode_flat_2:
  assumes "splitStripes numCPU 4 1 = Inr [\<lparr>sy = 0, sh = 2\<rparr>, \<lparr>sy = 2, sh = 2\<rparr>]"
      and "paintLeafJobsParallel numCPU (NewRGBA 4 4) [[RGBA 200 100 50 255]] [\<lparr>jx = 0, jy = 0, jw = 4, jh = 2, jpal = 0, jidx = 0\<rparr>, \<lparr>jx = 0, jy = 2, jw = 4, jh = 2, jpal = 0, jidx = 0\<rparr>] = Inr sampleFlat"
      and "\<And>bs. zd (zc bs) = Some bs"
  shows "Decode numCPU zd mix ([66, 65, 66, 50, 0, 4, 0, 4, 50] @ zc [0, 1, 1, 200, 100, 50, 128, 64, 0]) = Some (Inr sampleFlat)"
proof -
  have d: "map_option (map_sum id (\<lambda>(br, leafCounter, jobs). jobs))
      (decodeStripes 4 (paramsForQuality 50) [[RGBA 200 100 50 255]] [\<lparr>sy = 0, sh = 2\<rparr>, \<lparr>sy = 2, sh = 2\<rparr>] (NewBitReaderFromBytes [128, 64, 0], 0, []))
      = Some (Inr [\<lparr>jx = 0, jy = 0, jw = 4, jh = 2, jpal = 0, jidx = 0\<rparr>, \<lparr>jx = 0, jy = 2, jw = 4, jh = 2, jpal = 0, jidx = 0\<rparr>])"
    by code_simp
  then obtain st where "decodeStripes 4 (paramsForQuality 50) [[RGBA 200 100 50 255]] [\<lparr>sy = 0, sh = 2\<rparr>, \<lparr>sy = 2, sh = 2\<rparr>]
        (NewBitReaderFromBytes [128, 64, 0], 0, []) = Some (Inr st)"
      "(\<lambda>(br, leafCounter, jobs). jobs) st = [\<lparr>jx = 0, jy = 0, jw = 4, jh = 2, jpal = 0, jidx = 0\<rparr>, \<lparr>jx = 0, jy = 2, jw = 4, jh = 2, jpal = 0, jidx = 0\<rparr>]"
    by (rule proj_Some_Inr)
  then obtain br leafCounter where d': "decodeStripes 4 (paramsForQuality 50) [[RGBA 200 100 50 255]] [\<lparr>sy = 0, sh = 2\<rparr>, \<lparr>sy = 2, sh = 2\<rparr>]
        (NewBitReaderFromBytes [128, 64, 0], 0, []) = Some (Inr (br, leafCounter, [\<lparr>jx = 0, jy = 0, jw = 4, jh = 2, jpal = 0, jidx = 0\<rparr>, \<lparr>jx = 0, jy = 2, jw = 4, jh = 2, jpal = 0, jidx = 0\<rparr>]))"
    by (cases st) (simp del: decodeStripes.simps)
  show ?thesis
    unfolding Decode_def
    by (simp add: Let_def pq50 assms d' smooth_flat magicCodec2_def del: decodeStripes.simps)
qed

lemma collect_flat_3:
  assumes "splitStripes numCPU 4 1 = Inr [\<lparr>sy = 0, sh = 2\<rparr>, \<lparr>sy = 2, sh = 1\<rparr>, \<lparr>sy = 3, sh = 1\<rparr>]"
  shows "collectRegionColorsStriped numCPU sampleFlat (paramsForQuality 50) = Some (Inr ([RGBA 200 100 50 255, RGBA 200 100 50 255, RGBA 200 100 50 255], [True, True, True]))"
proof -
  have c: "collectStripes sampleFlat 4 (paramsForQuality 50) [\<lparr>sy = 0, sh = 2\<rparr>, \<lparr>sy = 2, sh = 1\<rparr>, \<lparr>sy = 3, sh = 1\<rparr>] = Some ([RGBA 200 100 50 255, RGBA 200 100 50 255, RGBA 200 100 50 255], [True, True, True])"
    by code_simp
  show ?thesis
    unfolding collectRegionColorsStriped_def
    by (simp add: Let_def flat_dims pq50 assms c del: collectStripes.simps)
qed

lemma build_flat_3:
  "buildPalettes [RGBA 200 100 50 255, RGBA 200 100 50 255, RGBA 200 100 50 255] (paramsForQuality 50) = Inr ([[RGBA 200 100 50 255]], [\<lparr>pal = 0, idx = 0\<rparr>, \<lparr>pal = 0, idx = 0\<rparr>, \<lparr>pal = 0, idx = 0\<rparr>])"
  by code_simp

lemma encode_flat_3:
  assumes "splitStripes numCPU 4 1 = Inr [\<lparr>sy = 0, sh = 2\<rparr>, \<lparr>sy = 2, sh = 1\<rparr>, \<lparr>sy = 3, sh = 1\<rparr>]"
  shows "Encode numCPU zc sampleFlat 50 =
    Some (Inr ([66, 65, 66, 50, 0, 4, 0, 4, 50] @ zc [0, 1, 1, 200, 100, 50, 128, 64, 32, 0]))"
proof -
  have e: "map_option (map_sum id (\<lambda>(bw, leafPos, patPos). wbuf (Flush bw)))
      (encodeStripes 4 (paramsForQuality 50) [0, 0, 0] [True, True, True] [\<lparr>sy = 0, sh = 2\<rparr>, \<lparr>sy = 2, sh = 1\<rparr>, \<lparr>sy = 3, sh = 1\<rparr>]
         (NewBitWriter [0, 1, 1, 200, 100, 50], 0, 0))
      = Some (Inr [0, 1, 1, 200, 100, 50, 128, 64, 32, 0])"
    by code_simp
  then obtain st where "encodeStripes 4 (paramsForQuality 50) [0, 0, 0] [True, True, True] [\<lparr>sy = 0, sh = 2\<rparr>, \<lparr>sy = 2, sh = 1\<rparr>, \<lparr>sy = 3, sh = 1\<rparr>]
         (NewBitWriter [0, 1, 1, 200, 100, 50], 0, 0) = Some (Inr st)"
      "(\<lambda>(bw, leafPos, patPos). wbuf (Flush bw)) st = [0, 1, 1, 200, 100, 50, 128, 64, 32, 0]"
    by (rule proj_Some_Inr)
  then obtain bw leafPos patPos where e': "encodeStripes 4 (paramsForQuality 50) [0, 0, 0] [True, True, True] [\<lparr>sy = 0, sh = 2\<rparr>, \<lparr>sy = 2, sh = 1\<rparr>, \<lparr>sy = 3, sh = 1\<rparr>]
         (NewBitWriter [0, 1, 1, 200, 100, 50], 0, 0) = Some (Inr (bw, leafPos, patPos))"
      "wbuf (Flush bw) = [0, 1, 1, 200, 100, 50, 128, 64, 32, 0]"
    by (cases st) (simp del: encodeStripes.simps)
  show ?thesis
    unfolding Encode_def
    by (simp add: Let_def flat_dims pq50 assms collect_flat_3 [OF assms] build_flat_3 e'
          magicCodec2_def putUint16_def del: encodeStripes.simps)
qed

lemma decode_flat_3:
  assumes "splitStripes numCPU 4 1 = Inr [\<lparr>sy = 0, sh = 2\<rparr>, \<lparr>sy = 2, sh = 1\<rparr>, \<lparr>sy = 3, sh = 1\<rparr>]"
      and "paintLeafJobsParallel numCPU (NewRGBA 4 4) [[RGBA 200 100 50 255]] [\<lparr>jx = 0, jy = 0, jw = 4, jh = 2, jpal = 0, jidx = 0\<rparr>, \<lparr>jx = 0, jy = 2, jw = 4, jh = 1, jpal = 0, jidx = 0\<rparr>, \<lparr>jx = 0, jy = 3, jw = 4, jh = 1, jpal = 0, jidx = 0\<rparr>] = Inr sampleFlat"
      and "\<And>bs. zd (zc bs) = Some bs"
  shows "Decode numCPU zd mix ([66, 65, 66, 50, 0, 4, 0, 4, 50] @ zc [0, 1, 1, 200, 100, 50, 128, 64, 32, 0]) = Some (Inr sampleFlat)"
proof -
  have d: "map_option (map_sum id (\<lambda>(br, leafCounter, jobs). jobs))
      (decodeStripes 4 (paramsForQuality 50) [[RGBA 200 100 50 255]] [\<lparr>sy = 0, sh = 2\<rparr>, \<lparr>sy = 2, sh = 1\<rparr>, \<lparr>sy = 3, sh = 1\<rparr>] (NewBitReaderFromBytes [128, 64, 32, 0], 0, []))
      = Some (Inr [\<lparr>jx = 0, jy = 0, jw = 4, jh = 2, jpal = 0, jidx = 0\<rparr>, \<lparr>jx = 0, jy = 2, jw = 4, jh = 1, jpal = 0, jidx = 0\<rparr>, \<lparr>jx = 0, jy = 3, jw = 4, jh = 1, jpal = 0, jidx = 0\<rparr>])"
    by code_simp
  then obtain st where "decodeStripes 4 (paramsForQuality 50) [[RGBA 200 100 50 255]] [\<lparr>sy = 0, sh = 2\<rparr>, \<lparr>sy = 2, sh = 1\<rparr>, \<lparr>sy = 3, sh = 1\<rparr>]
        (NewBitReaderFromBytes [128, 64, 32, 0], 0, []) = Some (Inr st)"
      "(\<lambda>(br, leafCounter, jobs). jobs) st = [\<lparr>jx = 0, jy = 0, jw = 4, jh = 2, jpal = 0, jidx = 0\<rparr>, \<lparr>jx = 0, jy = 2, jw = 4, jh = 1, jpal = 0, jidx = 0\<rparr>, \<lparr>jx = 0, jy = 3, jw = 4, jh = 1, jpal = 0, jidx = 0\<rparr>]"
    by (rule proj_Some_Inr)
  then obtain br leafCounter where d': "decodeStripes 4 (paramsForQuality 50) [[RGBA 200 100 50 255]] [\<lparr>sy = 0, sh = 2\<rparr>, \<lparr>sy = 2, sh = 1\<rparr>, \<lparr>sy = 3, sh = 1\<rparr>]
        (NewBitReaderFromBytes [128, 64, 32, 0], 0, []) = Some (Inr (br, leafCounter, [\<lparr>jx = 0, jy = 0, jw = 4, jh = 2, jpal = 0, jidx = 0\<rparr>, \<lparr>jx = 0, jy = 2, jw = 4, jh = 1, jpal = 0, jidx = 0\<rparr>, \<lparr>jx = 0, jy = 3, jw = 4, jh = 1, jpal = 0, jidx = 0\<rparr>]))"
    by (cases st) (simp del: decodeStripes.simps)
  show ?thesis
    unfolding Decode_def
    by (simp add: Let_def pq50 assms d' smooth_flat magicCodec2_def del: decodeStripes.simps)
qed

lemma collect_flat_4:
  assumes "splitStripes numCPU 4 1 = Inr [\<lparr>sy = 0, sh = 1\<rparr>, \<lparr>sy = 1, sh = 1\<rparr>, \<lparr>sy = 2, sh = 1\<rparr>, \<lparr>sy = 3, sh = 1\<rparr>]"
  shows "collectRegionColorsStriped numCPU sampleFlat (paramsForQuality 50) = Some (Inr ([RGBA 200 100 50 255, RGBA 200 100 50 255, RGBA 200 100 50 255, RGBA 200 100 50 255], [True, True, True, True]))"
proof -
  have c: "collectStripes sampleFlat 4 (paramsForQuality 50) [\<lparr>sy = 0, sh = 1\<rparr>, \<lparr>sy = 1, sh = 1\<rparr>, \<lparr>sy = 2, sh = 1\<rparr>, \<lparr>sy = 3, sh = 1\<rparr>] = Some ([RGBA 200 100 50 255, RGBA 200 100 50 255, RGBA 200 100 50 255, RGBA 200 100 50 255], [True, True, True, True])"
    by code_simp
  show ?thesis
    unfolding collectRegionColorsStriped_def
    by (simp add: Let_def flat_dims pq50 assms c del: collectStripes.simps)
qed

lemma build_flat_4:
  "buildPalettes [RGBA 200 100 50 255, RGBA 200 100 50 255, RGBA 200 100 50 255, RGBA 200 100 50 255] (paramsForQuality 50) = Inr ([[RGBA 200 100 50 255]], [\<lparr>pal = 0, idx = 0\<rparr>, \<lparr>pal = 0, idx = 0\<rparr>, \<lparr>pal = 0, idx = 0\<rparr>, \<lparr>pal = 0, idx = 0\<rparr>])"
  by code_simp

lemma encode_flat_4:
  assumes "splitStripes numCPU 4 1 = Inr [\<lparr>sy = 0, sh = 1\<rparr>, \<lparr>sy = 1, sh = 1\<rparr>, \<lparr>sy = 2, sh = 1\<rparr>, \<lparr>sy = 3, sh = 1\<rparr>]"
  shows "Encode numCPU zc sampleFlat 50 =
    Some (Inr ([66, 65, 66, 50, 0, 4, 0, 4, 50] @ zc [0, 1, 1, 200, 100, 50, 128, 64, 32, 16, 0]))"
proof -
  have e: "map_option (map_sum id (\<lambda>(bw, leafPos, patPos). wbuf (Flush bw)))
      (encodeStripes 4 (paramsForQuality 50) [0, 0, 0, 0] [True, True, True, True] [\<lparr>sy = 0, sh = 1\<rparr>, \<lparr>sy = 1, sh = 1\<rparr>, \<lparr>sy = 2, sh = 1\<rparr>, \<lparr>sy = 3, sh = 1\<rparr>]
         (NewBitWriter [0, 1, 1, 200, 100, 50], 0, 0))
      = Some (Inr [0, 1, 1, 200, 100, 50, 128, 64, 32, 16, 0])"
    by code_simp
  then obtain st where "encodeStripes 4 (paramsForQuality 50) [0, 0, 0, 0] [True, True, True, True] [\<lparr>sy = 0, sh = 1\<rparr>, \<lparr>sy = 1, sh = 1\<rparr>, \<lparr>sy = 2, sh = 1\<rparr>, \<lparr>sy = 3, sh = 1\<rparr>]
         (NewBitWriter [0, 1, 1, 200, 100, 50], 0, 0) = Some (Inr st)"
      "(\<lambda>(bw, leafPos, patPos). wbuf (Flush bw)) st = [0, 1, 1, 200, 100, 50, 128, 64, 32, 16, 0]"
    by (rule proj_Some_Inr)
  then obtain bw leafPos patPos where e': "encodeStripes 4 (paramsForQuality 50) [0, 0, 0, 0] [True, True, True, True] [\<lparr>sy = 0, sh = 1\<rparr>, \<lparr>sy = 1, sh = 1\<rparr>, \<lparr>sy = 2, sh = 1\<rparr>, \<lparr>sy = 3, sh = 1\<rparr>]
         (NewBitWriter [0, 1, 1, 200, 100, 50], 0, 0) = Some (Inr (bw, leafPos, patPos))"
      "wbuf (Flush bw) = [0, 1, 1, 200, 100, 50, 128, 64, 32, 16, 0]"
    by (cases st) (simp del: encodeStripes.simps)
  show ?thesis
    unfolding Encode_def
    by (simp add: Let_def flat_dims pq50 assms collect_flat_4 [OF assms] build_flat_4 e'
          magicCodec2_def putUint16_def del: encodeStripes.simps)
qed

lemma decode_flat_4:
  assumes "splitStripes numCPU 4 1 = Inr [\<lparr>sy = 0, sh = 1\<rparr>, \<lparr>sy = 1, sh = 1\<rparr>, \<lparr>sy = 2, sh = 1\<rparr>, \<lparr>sy = 3, sh = 1\<rparr>]"
      and "paintLeafJobsParallel numCPU (NewRGBA 4 4) [[RGBA 200 100 50 255]] [\<lparr>jx = 0, jy = 0, jw = 4, jh = 1, jpal = 0, jidx = 0\<rparr>, \<lparr>jx = 0, jy = 1, jw = 4, jh = 1, jpal = 0, jidx = 0\<rparr>, \<lparr>jx = 0, jy = 2, jw = 4, jh = 1, jpal = 0, jidx = 0\<rparr>, \<lparr>jx = 0, jy = 3, jw = 4, jh = 1, jpal = 0, jidx = 0\<rparr>] = Inr sampleFlat"
      and "\<And>bs. zd (zc bs) = Some bs"
  shows "Decode numCPU zd mix ([66, 65, 66, 50, 0, 4, 0, 4, 50] @ zc [0, 1, 1, 200, 100, 50, 128, 64, 32, 16, 0]) = Some (Inr sampleFlat)"
proof -
  have d: "map_option (map_sum id (\<lambda>(br, leafCounter, jobs). jobs))
      (decodeStripes 4 (paramsForQuality 50) [[RGBA 200 100 50 255]] [\<lparr>sy = 0, sh = 1\<rparr>, \<lparr>sy = 1, sh = 1\<rparr>, \<lparr>sy = 2, sh = 1\<rparr>, \<lparr>sy = 3, sh = 1\<rparr>] (NewBitReaderFromBytes [128, 64, 32, 16, 0], 0, []))
      = Some (Inr [\<lparr>jx = 0, jy = 0, jw = 4, jh = 1, jpal = 0, jidx = 0\<rparr>, \<lparr>jx = 0, jy = 1, jw = 4, jh = 1, jpal = 0, jidx = 0\<rparr>, \<lparr>jx = 0, jy = 2, jw = 4, jh = 1, jpal = 0, jidx = 0\<rparr>, \<lparr>jx = 0, jy = 3, jw = 4, jh = 1, jpal = 0, jidx = 0\<rparr>])"
    by code_simp
  then obtain st where "decodeStripes 4 (paramsForQuality 50) [[RGBA 200 100 50 255]] [\<lparr>sy = 0, sh = 1\<rparr>, \<lparr>sy = 1, sh = 1\<rparr>, \<lparr>sy = 2, sh = 1\<rparr>, \<lparr>sy = 3, sh = 1\<rparr>]
        (NewBitReaderFromBytes [128, 64, 32, 16, 0], 0, []) = Some (Inr st)"
      "(\<lambda>(br, leafCounter, jobs). jobs) st = [\<lparr>jx = 0, jy = 0, jw = 4, jh = 1, jpal = 0, jidx = 0\<rparr>, \<lparr>jx = 0, jy = 1, jw = 4, jh = 1, jpal = 0, jidx = 0\<rparr>, \<lparr>jx = 0, jy = 2, jw = 4, jh = 1, jpal = 0, jidx = 0\<rparr>, \<lparr>jx = 0, jy = 3, jw = 4, jh = 1, jpal = 0, jidx = 0\<rparr>]"
    by (rule proj_Some_Inr)
  then obtain br leafCounter where d': "decodeStripes 4 (paramsForQuality 50) [[RGBA 200 100 50 255]] [\<lparr>sy = 0, sh = 1\<rparr>, \<lparr>sy = 1, sh = 1\<rparr>, \<lparr>sy = 2, sh = 1\<rparr>, \<lparr>sy = 3, sh = 1\<rparr>]
        (NewBitReaderFromBytes [128, 64, 32, 16, 0], 0, []) = Some (Inr (br, leafCounter, [\<lparr>jx = 0, jy = 0, jw = 4, jh = 1, jpal = 0, jidx = 0\<rparr>, \<lparr>jx = 0, jy = 1, jw = 4, jh = 1, jpal = 0, jidx = 0\<rparr>, \<lparr>jx = 0, jy = 2, jw = 4, jh = 1, jpal = 0, jidx = 0\<rparr>, \<lparr>jx = 0, jy = 3, jw = 4, jh = 1, jpal = 0, jidx = 0\<rparr>]))"
    by (cases st) (simp del: decodeStripes.simps)
  show ?thesis
    unfolding Decode_def
    by (simp add: Let_def pq50 assms d' smooth_flat magicCodec2_def del: decodeStripes.simps)
qed

text \<open>
  C3 (as amended).  The 4x4 raster with every pixel RGB (200,100,50), encoded at quality 50 on a
  host with \<open>numCPU\<close> CPUs, gives one leaf per stripe, that is \<open>n\<close> leaves with \<open>n\<close> the
  number of CPUs limited to the range 1 to 4 (one leaf on a host with one CPU), all of
  them the colour (200,100,50), and one palette with the one entry (200,100,50).  \<^verbatim>\<open>Encode\<close>
  succeeds and, with a decompressor that inverts the compressor, \<^verbatim>\<open>Decode\<close> on the same host
  returns the 4x4 raster with every pixel (200,100,50); the edge smoother leaves that raster
  as it is.
\<close>

theorem flat_raster_one_leaf_per_stripe:
  assumes "\<And>bs. zstdDecompress (zstdCompress bs) = Some bs"
  shows "(let n = (if numCPU \<le> 1 then 1 else if 4 \<le> numCPU then 4 else nat numCPU);
              params = paramsForQuality 50
          in collectRegionColorsStriped numCPU sampleFlat params =
               Some (Inr (replicate n (RGBA 200 100 50 255), replicate n True))
           \<and> buildPalettes (replicate n (RGBA 200 100 50 255)) params =
               Inr ([[RGBA 200 100 50 255]], replicate n \<lparr>pal = 0, idx = 0\<rparr>)
           \<and> (\<exists>art. Encode numCPU zstdCompress sampleFlat 50 = Some (Inr art)
                 \<and> Decode numCPU zstdDecompress mix art = Some (Inr sampleFlat))
           \<and> smoothEdges mix sampleFlat (maxGrad params) = sampleFlat
           \<and> rw sampleFlat = 4 \<and> rh sampleFlat = 4
           \<and> pix sampleFlat = replicate 16 (RGBA 200 100 50 255))"
proof -
  have flat: "pix sampleFlat = replicate 16 (RGBA 200 100 50 255)"
    by (simp add: sampleFlat_def)
  have D: "smoothEdges mix sampleFlat (maxGrad (paramsForQuality 50)) = sampleFlat"
    by (simp add: pq50 smooth_flat)
  consider "numCPU \<le> 1" | "numCPU = 2" | "numCPU = 3" | "4 \<le> numCPU"
    by linarith
  then show ?thesis
  proof cases
    case 1
    have n: "(if numCPU \<le> 1 then 1 else if 4 \<le> numCPU then 4 else nat numCPU) = (1::nat)"
      using 1 by simp
    have r: "replicate 1 (RGBA 200 100 50 255) = [RGBA 200 100 50 255]" "replicate 1 True = [True]"
        "replicate 1 \<lparr>pal = 0::16 word, idx = 0::8 word\<rparr> = [\<lparr>pal = 0, idx = 0\<rparr>]"
      by (simp_all add: eval_nat_numeral)
    have s: "splitStripes numCPU 4 1 = Inr [\<lparr>sy = 0, sh = 4\<rparr>]"
      using 1 by (rule stripes_flat)
    have p: "paintLeafJobsParallel numCPU (NewRGBA 4 4) [[RGBA 200 100 50 255]] [\<lparr>jx = 0, jy = 0, jw = 4, jh = 4, jpal = 0, jidx = 0\<rparr>] = Inr sampleFlat"
      unfolding paint_few_cpus [OF 1] by code_simp
    have A: "collectRegionColorsStriped numCPU sampleFlat (paramsForQuality 50) =
               Some (Inr (replicate 1 (RGBA 200 100 50 255), replicate 1 True))"
      unfolding r by (rule collect_flat_1 [OF s])
    have B: "buildPalettes (replicate 1 (RGBA 200 100 50 255)) (paramsForQuality 50) =
               Inr ([[RGBA 200 100 50 255]], replicate 1 \<lparr>pal = 0, idx = 0\<rparr>)"
      unfolding r by (rule build_flat_1)
    have C: "\<exists>art. Encode numCPU zstdCompress sampleFlat 50 = Some (Inr art)
                 \<and> Decode numCPU zstdDecompress mix art = Some (Inr sampleFlat)"
      using encode_flat_1 [where zc = zstdCompress, OF s]
            decode_flat_1 [where zd = zstdDecompress and zc = zstdCompress and mix = mix, OF s p assms]
      by blast
    show ?thesis
      unfolding Let_def n using A B C D flat_dims flat by blast
  next
    case 2
    have n: "(if numCPU \<le> 1 then 1 else if 4 \<le> numCPU then 4 else nat numCPU) = (2::nat)"
      using 2 by simp
    have r: "replicate 2 (RGBA 200 100 50 255) = [RGBA 200 100 50 255, RGBA 200 100 50 255]" "replicate 2 True = [True, True]"
        "replicate 2 \<lparr>pal = 0::16 word, idx = 0::8 word\<rparr> = [\<lparr>pal = 0, idx = 0\<rparr>, \<lparr>pal = 0, idx = 0\<rparr>]"
      by (simp_all add: eval_nat_numeral)
    have s: "splitStripes numCPU 4 1 = Inr [\<lparr>sy = 0, sh = 2\<rparr>, \<lparr>sy = 2, sh = 2\<rparr>]"
      unfolding 2 by (rule stripes_flat)
    have p: "paintLeafJobsParallel numCPU (NewRGBA 4 4) [[RGBA 200 100 50 255]] [\<lparr>jx = 0, jy = 0, jw = 4, jh = 2, jpal = 0, jidx = 0\<rparr>, \<lparr>jx = 0, jy = 2, jw = 4, jh = 2, jpal = 0, jidx = 0\<rparr>] = Inr sampleFlat"
      unfolding 2 by code_simp
    have A: "collectRegionColorsStriped numCPU sampleFlat (paramsForQuality 50) =
               Some (Inr (replicate 2 (RGBA 200 100 50 255), replicate 2 True))"
      unfolding r by (rule collect_flat_2 [OF s])
    have B: "buildPalettes (replicate 2 (RGBA 200 100 50 255)) (paramsForQuality 50) =
               Inr ([[RGBA 200 100 50 255]], replicate 2 \<lparr>pal = 0, idx = 0\<rparr>)"
      unfolding r by (rule build_flat_2)
    have C: "\<exists>art. Encode numCPU zstdCompress sampleFlat 50 = Some (Inr art)
                 \<and> Decode numCPU zstdDecompress mix art = Some (Inr sampleFlat)"
      using encode_flat_2 [where zc = zstdCompress, OF s]
            decode_flat_2 [where zd = zstdDecompress and zc = zstdCompress and mix = mix, OF s p assms]
      by blast
    show ?thesis
      unfolding Let_def n using A B C D flat_dims flat by blast
  next
    case 3
    have n: "(if numCPU \<le> 1 then 1 else if 4 \<le> numCPU then 4 else nat numCPU) = (3::nat)"
      using 3 by simp
    have r: "replicate 3 (RGBA 200 100 50 255) = [RGBA 200 100 50 255, RGBA 200 100 50 255, RGBA 200 100 50 255]" "replicate 3 True = [True, True, True]"
        "replicate 3 \<lparr>pal = 0::16 word, idx = 0::8 word\<rparr> = [\<lparr>pal = 0, idx = 0\<rparr>, \<lparr>pal = 0, idx = 0\<rparr>, \<lparr>pal = 0, idx = 0\<rparr>]"
      by (simp_all add: eval_nat_numeral)
    have s: "splitStripes numCPU 4 1 = Inr [\<lparr>sy = 0, sh = 2\<rparr>, \<lparr>sy = 2, sh = 1\<rparr>, \<lparr>sy = 3, sh = 1\<rparr>]"
      unfolding 3 by (rule stripes_flat)
    have p: "paintLeafJobsParallel numCPU (NewRGBA 4 4) [[RGBA 200 100 50 255]] [\<lparr>jx = 0, jy = 0, jw = 4, jh = 2, jpal = 0, jidx = 0\<rparr>, \<lparr>jx = 0, jy = 2, jw = 4, jh = 1, jpal = 0, jidx = 0\<rparr>, \<lparr>jx = 0, jy = 3, jw = 4, jh = 1, jpal = 0, jidx = 0\<rparr>] = Inr sampleFlat"
      unfolding 3 by code_simp
    have A: "collectRegionColorsStriped numCPU sampleFlat (paramsForQuality 50) =
               Some (Inr (replicate 3 (RGBA 200 100 50 255), replicate 3 True))"
      unfolding r by (rule collect_flat_3 [OF s])
    have B: "buildPalettes (replicate 3 (RGBA 200 100 50 255)) (paramsForQuality 50) =
               Inr ([[RGBA 200 100 50 255]], replicate 3 \<lparr>pal = 0, idx = 0\<rparr>)"
      unfolding r by (rule build_flat_3)
    have C: "\<exists>art. Encode numCPU zstdCompress sampleFlat 50 = Some (Inr art)
                 \<and> Decode numCPU zstdDecompress mix art = Some (Inr sampleFlat)"
      using encode_flat_3 [where zc = zstdCompress, OF s]
            decode_flat_3 [where zd = zstdDecompress and zc = zstdCompress and mix = mix, OF s p assms]
      by blast
    show ?thesis
      unfolding Let_def n using A B C D flat_dims flat by blast
  next
    case 4
    have n: "(if numCPU \<le> 1 then 1 else if 4 \<le> numCPU then 4 else nat numCPU) = (4::nat)"
      using 4 by simp
    have r: "replicate 4 (RGBA 200 100 50 255) = [RGBA 200 100 50 255, RGBA 200 100 50 255, RGBA 200 100 50 255, RGBA 200 100 50 255]" "replicate 4 True = [True, True, True, True]"
        "replicate 4 \<lparr>pal = 0::16 word, idx = 0::8 word\<rparr> = [\<lparr>pal = 0, idx = 0\<rparr>, \<lparr>pal = 0, idx = 0\<rparr>, \<lparr>pal = 0, idx = 0\<rparr>, \<lparr>pal = 0, idx = 0\<rparr>]"
      by (simp_all add: eval_nat_numeral)
    have s: "splitStripes numCPU 4 1 = Inr [\<lparr>sy = 0, sh = 1\<rparr>, \<lparr>sy = 1, sh = 1\<rparr>, \<lparr>sy = 2, sh = 1\<rparr>, \<lparr>sy = 3, sh = 1\<rparr>]"
      using 4 by (rule stripes_flat)
    have "paintLeafJobsParallel 4 (NewRGBA 4 4) [[RGBA 200 100 50 255]] [\<lparr>jx = 0, jy = 0, jw = 4, jh = 1, jpal = 0, jidx = 0\<rparr>, \<lparr>jx = 0, jy = 1, jw = 4, jh = 1, jpal = 0, jidx = 0\<rparr>, \<lparr>jx = 0, jy = 2, jw = 4, jh = 1, jpal = 0, jidx = 0\<rparr>, \<lparr>jx = 0, jy = 3, jw = 4, jh = 1, jpal = 0, jidx = 0\<rparr>] = Inr sampleFlat"
      by code_simp
    with 4 have p: "paintLeafJobsParallel numCPU (NewRGBA 4 4) [[RGBA 200 100 50 255]] [\<lparr>jx = 0, jy = 0, jw = 4, jh = 1, jpal = 0, jidx = 0\<rparr>, \<lparr>jx = 0, jy = 1, jw = 4, jh = 1, jpal = 0, jidx = 0\<rparr>, \<lparr>jx = 0, jy = 2, jw = 4, jh = 1, jpal = 0, jidx = 0\<rparr>, \<lparr>jx = 0, jy = 3, jw = 4, jh = 1, jpal = 0, jidx = 0\<rparr>] = Inr sampleFlat"
      using paint_many_cpus [of "[\<lparr>jx = 0, jy = 0, jw = 4, jh = 1, jpal = 0, jidx = 0\<rparr>, \<lparr>jx = 0, jy = 1, jw = 4, jh = 1, jpal = 0, jidx = 0\<rparr>, \<lparr>jx = 0, jy = 2, jw = 4, jh = 1, jpal = 0, jidx = 0\<rparr>, \<lparr>jx = 0, jy = 3, jw = 4, jh = 1, jpal = 0, jidx = 0\<rparr>]" numCPU "NewRGBA 4 4" "[[RGBA 200 100 50 255]]"] by simp
    have A: "collectRegionColorsStriped numCPU sampleFlat (paramsForQuality 50) =
               Some (Inr (replicate 4 (RGBA 200 100 50 255), replicate 4 True))"
      unfolding r by (rule collect_flat_4 [OF s])
    have B: "buildPalettes (replicate 4 (RGBA 200 100 50 255)) (paramsForQuality 50) =
               Inr ([[RGBA 200 100 50 255]], replicate 4 \<lparr>pal = 0, idx = 0\<rparr>)"
      unfolding r by (rule build_flat_4)
    have C: "\<exists>art. Encode numCPU zstdCompress sampleFlat 50 = Some (Inr art)
                 \<and> Decode numCPU zstdDecompress mix art = Some (Inr sampleFlat)"
      using encode_flat_4 [where zc = zstdCompress, OF s]
            decode_flat_4 [where zd = zstdDecompress and zc = zstdCompress and mix = mix, OF s p assms]
      by blast
    show ?thesis
      unfolding Let_def n using A B C D flat_dims flat by blast
  qed
qed


theorem flat_raster_one_leaf_per_stripe_witness:
  "collectRegionColorsStriped 8 sampleFlat (paramsForQuality 50) =
      Some (Inr (replicate 4 (RGBA 200 100 50 255), replicate 4 True))
   \<and> buildPalettes (replicate 4 (RGBA 200 100 50 255)) (paramsForQuality 50) =
      Inr ([[RGBA 200 100 50 255]], replicate 4 \<lparr>pal = 0, idx = 0\<rparr>)
   \<and> (\<exists>art. Encode 8 (\<lambda>bs. bs) sampleFlat 50 = Some (Inr art)
         \<and> Decode 8 Some (\<lambda>a c s n. c) art = Some (Inr sampleFlat))"
  using flat_raster_one_leaf_per_stripe [of Some "\<lambda>bs. bs" 8 "\<lambda>a c s n. c"]
  by (simp add: Let_def)

text \<open>
  C3 as stated fails on a host with two CPUs: the raster is split into two stripes, the
  classifier returns two leaves and the bit stream holds two leaf records.
\<close>

theorem flat_raster_two_leaves:
  "collectRegionColorsStriped 2 sampleFlat (paramsForQuality 50) =
      Some (Inr ([RGBA 200 100 50 255, RGBA 200 100 50 255], [True, True]))
   \<and> Encode 2 (\<lambda>bs. bs) sampleFlat 50 =
      Some (Inr [66, 65, 66, 50, 0, 4, 0, 4, 50, 0, 1, 1, 200, 100, 50, 128, 64, 0])"
  by (simp add: collect_flat_2 encode_flat_2 stripes_flat)

section \<open>A raster wider than the 16-bit header field\<close>

lemma sampleWide_dims: "rw sampleWide = 65536" "rh sampleWide = 1" "length (pix sampleWide) = 65536"
  by (simp_all add: sampleWide_def)

lemma sampleWide_pix:
  "pix sampleWide ! 0 = RGBA 255 255 255 255"
  "0 < i \<Longrightarrow> i < 65536 \<Longrightarrow> pix sampleWide ! i = RGBA 0 0 0 255"
  by (simp_all add: sampleWide_def nth_Cons')

lemma analyzeStep_sums:
  "sumR (analyzeStep img x y w h yy xx a) =
     (if inBounds img (x + xx) (y + yy) then sumR a + uint (colR (RGBAAt img (x + xx) (y + yy))) else sumR a)"
  "sumG (analyzeStep img x y w h yy xx a) =
     (if inBounds img (x + xx) (y + yy) then sumG a + uint (colG (RGBAAt img (x + xx) (y + yy))) else sumG a)"
  "sumB (analyzeStep img x y w h yy xx a) =
     (if inBounds img (x + xx) (y + yy) then sumB a + uint (colB (RGBAAt img (x + xx) (y + yy))) else sumB a)"
  by (simp_all add: analyzeStep_def Let_def stepSums_def stepTotal_def stepBorder_def stepInner_def)

text \<open>The scan of pixels that are all black: no luma spread, sums zero.\<close>

lemma scan_black:
  assumes "\<forall>p \<in> set ps. inBounds img (x + int (snd p)) (y + int (fst p))
             \<and> RGBAAt img (x + int (snd p)) (y + int (fst p)) = RGBA 0 0 0 255"
      and "sumR a = 0" "sumG a = 0" "sumB a = 0" "maxL a = 0" "0 \<le> minL a"
      and "0 < count a \<longrightarrow> minL a = 0" "0 \<le> count a"
  shows "sumR (fold (scanStep img x y w h) ps a) = 0
       \<and> sumG (fold (scanStep img x y w h) ps a) = 0
       \<and> sumB (fold (scanStep img x y w h) ps a) = 0
       \<and> maxL (fold (scanStep img x y w h) ps a) = 0
       \<and> count (fold (scanStep img x y w h) ps a) = count a + int (length ps)
       \<and> (ps \<noteq> [] \<longrightarrow> minL (fold (scanStep img x y w h) ps a) = 0)"
  using assms
proof (induction ps arbitrary: a)
  case Nil
  then show ?case by simp
next
  case (Cons p ps)
  let ?a = "scanStep img x y w h p a"
  have p: "inBounds img (x + int (snd p)) (y + int (fst p))"
      "RGBAAt img (x + int (snd p)) (y + int (fst p)) = RGBA 0 0 0 255"
    using Cons.prems(1) by simp_all
  have l: "luma (RGBA 0 0 0 255) = 0" by (simp add: luma_def)
  have a: "sumR ?a = 0" "sumG ?a = 0" "sumB ?a = 0" "maxL ?a = 0" "minL ?a = 0" "count ?a = count a + 1"
    using p Cons.prems(2-6)
    by (simp_all add: analyzeStep_sums analyzeStep_maxL analyzeStep_minL analyzeStep_count l)
  have rest: "\<forall>p \<in> set ps. inBounds img (x + int (snd p)) (y + int (fst p))
             \<and> RGBAAt img (x + int (snd p)) (y + int (fst p)) = RGBA 0 0 0 255"
    using Cons.prems(1) by simp
  have "0 \<le> count ?a" using a(6) Cons.prems(8) by simp
  from Cons.IH [OF rest a(1-4) _ _ this] a(5,6)
  have IH: "sumR (fold (scanStep img x y w h) ps ?a) = 0
       \<and> sumG (fold (scanStep img x y w h) ps ?a) = 0
       \<and> sumB (fold (scanStep img x y w h) ps ?a) = 0
       \<and> maxL (fold (scanStep img x y w h) ps ?a) = 0
       \<and> count (fold (scanStep img x y w h) ps ?a) = count a + 1 + int (length ps)
       \<and> (ps \<noteq> [] \<longrightarrow> minL (fold (scanStep img x y w h) ps ?a) = 0)"
    by simp
  have m: "minL (fold (scanStep img x y w h) ps ?a) = 0"
  proof (cases "ps = []")
    case True
    then show ?thesis using a(5) by simp
  next
    case False
    then show ?thesis using IH by simp
  qed
  show ?case using IH m by simp
qed

text \<open>A block of black pixels in a raster of one row: energy 0, average black.\<close>

lemma analyzeBlock_black:
  assumes row: "rh img = 1" and x: "0 \<le> x" "1 \<le> w" "x + w \<le> int (rw img)"
      and black: "\<forall>i. nat x \<le> i \<and> i < nat (x + w) \<longrightarrow> pix img ! i = RGBA 0 0 0 255"
  shows "\<exists>be ie. analyzeBlock img x 0 w 1 = (0, be, ie, RGBA 0 0 0 255)"
proof -
  let ?ps = "blockOffsets w 1"
  let ?a = "analyzeScan img x 0 w 1"
  have mem: "\<forall>p \<in> set ?ps. inBounds img (x + int (snd p)) (0 + int (fst p))
             \<and> RGBAAt img (x + int (snd p)) (0 + int (fst p)) = RGBA 0 0 0 255"
  proof
    fix p assume "p \<in> set ?ps"
    then have "(fst p, snd p) \<in> set ?ps" by simp
    then have p: "fst p = 0" "snd p < nat w" by (simp_all only: set_blockOffsets) simp
    have r: "0 \<le> x + int (snd p)" "x + int (snd p) < int (rw img)" using p x by linarith+
    have "nat x \<le> nat (x + int (snd p)) \<and> nat (x + int (snd p)) < nat (x + w)"
      using p x by linarith
    then have "pix img ! nat (x + int (snd p)) = RGBA 0 0 0 255" using black by blast
    then show "inBounds img (x + int (snd p)) (0 + int (fst p))
             \<and> RGBAAt img (x + int (snd p)) (0 + int (fst p)) = RGBA 0 0 0 255"
      using RGBAAt_row [OF row r] p(1) by simp
  qed
  have len: "length ?ps = nat w" by (simp add: blockOffsets_def)
  then have ne: "?ps \<noteq> []" using x by auto
  have s: "sumR ?a = 0 \<and> sumG ?a = 0 \<and> sumB ?a = 0 \<and> maxL ?a = 0
         \<and> count ?a = count blockAcc0 + int (length ?ps) \<and> (?ps \<noteq> [] \<longrightarrow> minL ?a = 0)"
    unfolding analyzeScan_flat
    by (rule scan_black [OF mem]) (simp_all add: blockAcc0_def)
  then have c: "count ?a = w" "minL ?a = 0" "maxL ?a = 0" "sumR ?a = 0" "sumG ?a = 0" "sumB ?a = 0"
    using len ne x by (simp_all add: blockAcc0_def)
  show ?thesis
    using x(2) by (simp add: analyzeBlock_def Let_def c goDiv_def)
qed


text \<open>
  The classifier on the first \<open>2 ^ k\<close> pixels of the wide raster: the block holds the white
  pixel and black ones, so it is split by width down to the white pixel; every right half
  is black and is a leaf.
\<close>

lemma collect_wide:
  assumes "k \<le> 16"
  shows "collectRegionColors sampleWide 0 0 (2 ^ k) 1 (paramsForQuality 100) (leaves, pattern) =
     Some (leaves @ RGBA 255 255 255 255 # replicate k (RGBA 0 0 0 255),
           pattern @ replicate k False @ replicate (Suc k) True)"
  using assms
proof (induction k arbitrary: leaves pattern)
  case 0
  let ?p = "paramsForQuality 100"
  obtain e be ie avg where ab: "analyzeBlock sampleWide 0 0 1 1 = (e, be, ie, avg)"
    by (cases "analyzeBlock sampleWide 0 0 1 1")
  have ib: "inBounds sampleWide 0 0" "RGBAAt sampleWide 0 0 = RGBA 255 255 255 255"
    using RGBAAt_row [of sampleWide 0] by (simp_all add: sampleWide_dims sampleWide_pix)
  have "avg = RGBA 255 255 255 255"
    using analyzeBlock_single_avg [OF ib(1)] ab ib(2) by simp
  moreover have "(1::int) \<le> minBlock ?p \<and> (1::int) \<le> minBlock ?p"
    by (simp add: paramsForQuality_def)
  ultimately show ?case
    using collect_leaf [OF ab, of ?p leaves pattern] by simp
next
  case (Suc k)
  let ?p = "paramsForQuality 100"
  let ?w = "(2::int) ^ Suc k"
  have pq: "minBlock ?p = 1" "maxGrad ?p = 1" by (simp_all add: paramsForQuality_def)
  have k: "k \<le> 16" using Suc.prems by simp
  have pw: "(1::int) \<le> 2 ^ k" by simp
  have "(2::int) ^ Suc k \<le> 2 ^ 16" using Suc.prems by (intro power_increasing) simp_all
  then have w: "2 \<le> ?w" "?w \<le> 65536" using pw by simp_all
  have lt: "(1::int) < 2 ^ Suc k" unfolding power_Suc using pw by linarith
  obtain e be ie avg where ab: "analyzeBlock sampleWide 0 0 ?w 1 = (e, be, ie, avg)"
    by (cases "analyzeBlock sampleWide 0 0 ?w 1")
  have ib0: "inBounds sampleWide (0 + 0) (0 + 0)" "RGBAAt sampleWide (0 + 0) (0 + 0) = RGBA 255 255 255 255"
    using RGBAAt_row [of sampleWide 0] by (simp_all add: sampleWide_dims sampleWide_pix)
  have ib1: "inBounds sampleWide (0 + 1) (0 + 0)" "RGBAAt sampleWide (0 + 1) (0 + 0) = RGBA 0 0 0 255"
    using RGBAAt_row [of sampleWide 1] by (simp_all add: sampleWide_dims sampleWide_pix)
  have ge: "luma (RGBAAt sampleWide (0 + 0) (0 + 0)) - luma (RGBAAt sampleWide (0 + 1) (0 + 0))
          \<le> fst (analyzeBlock sampleWide 0 0 ?w 1)"
    using lt ib0(1) ib1(1) by (intro energy_ge_diff) simp_all
  have "luma (RGBAAt sampleWide (0 + 0) (0 + 0)) - luma (RGBAAt sampleWide (0 + 1) (0 + 0)) = 255"
    unfolding ib0(2) ib1(2) by (simp add: luma_def)
  with ge have "255 \<le> fst (analyzeBlock sampleWide 0 0 ?w 1)" by (simp only:)
  then have e: "255 \<le> e" unfolding ab by simp
  have gd: "goDiv ?w 2 = 2 ^ k" by (simp add: goDiv_nonneg)
  have c1: "\<not> (?w \<le> minBlock ?p \<and> 1 \<le> minBlock ?p)" using lt by (simp add: pq)
  have c2: "e \<noteq> 0" using e by simp
  have c3: "\<not> (\<not> edgeDominated ?p ?w 1 be ie \<and> e \<le> maxGrad ?p
               \<and> ?w \<le> 4 * minBlock ?p \<and> 1 \<le> 4 * minBlock ?p)"
    using e by (simp add: pq)
  have c4: "?w \<ge> 1 \<and> goDiv ?w 2 \<ge> minBlock ?p" unfolding gd pq using lt pw by linarith
  have split: "collectRegionColors sampleWide 0 0 ?w 1 ?p (leaves, pattern) =
      Option.bind (collectRegionColors sampleWide 0 0 (2 ^ k) 1 ?p (leaves, pattern @ [False]))
        (\<lambda>st. collectRegionColors sampleWide (0 + 2 ^ k) 0 (?w - 2 ^ k) 1 ?p st)"
    using collect_splitW [OF ab c1 c2 c3 c4, of leaves pattern] unfolding gd .
  have left: "collectRegionColors sampleWide 0 0 (2 ^ k) 1 ?p (leaves, pattern @ [False]) =
      Some (leaves @ RGBA 255 255 255 255 # replicate k (RGBA 0 0 0 255),
            (pattern @ [False]) @ replicate k False @ replicate (Suc k) True)"
    by (rule Suc.IH [OF k])
  have black: "\<forall>i. nat (2 ^ k) \<le> i \<and> i < nat (2 ^ k + 2 ^ k) \<longrightarrow> pix sampleWide ! i = RGBA 0 0 0 255"
  proof (intro allI impI)
    fix i :: nat assume i: "nat (2 ^ k) \<le> i \<and> i < nat (2 ^ k + 2 ^ k)"
    have "0 < i" using i pw by linarith
    moreover have "i < 65536"
    proof -
      have "(2::int) ^ k + 2 ^ k \<le> 65536" using w(2) unfolding power_Suc by linarith
      moreover have "int i < 2 ^ k + 2 ^ k" using i by linarith
      ultimately show ?thesis by linarith
    qed
    ultimately show "pix sampleWide ! i = RGBA 0 0 0 255" by (rule sampleWide_pix(2))
  qed
  have "(2::int) ^ k + 2 ^ k \<le> int (rw sampleWide)" using w(2) by (simp add: sampleWide_dims)
  from analyzeBlock_black [OF sampleWide_dims(2) _ pw this black]
  obtain be' ie' where ab': "analyzeBlock sampleWide (2 ^ k) 0 (2 ^ k) 1 = (0, be', ie', RGBA 0 0 0 255)"
    by auto
  have right: "collectRegionColors sampleWide (2 ^ k) 0 (2 ^ k) 1 ?p (l, q) =
      Some (l @ [RGBA 0 0 0 255], q @ [True])" for l q
    using collect_leaf [OF ab', of ?p l q] by simp
  show ?case
    unfolding split left by (simp add: right replicate_append_same)
qed

lemma encodeRegion_zero_width:
  assumes "minBlock params = 1"
  shows "encodeRegion x y 0 1 params leafLocal (False # pat) (bw, leafPos, 0) = Some (Inl ErrInconsistentPattern)"
  by (subst encodeRegion.simps) (simp add: Let_def goDiv_def assms)

lemma Encode_wide_inconsistent:
  "Encode numCPU zstdCompress sampleWide 100 = Some (Inl ErrInconsistentPattern)"
proof -
  let ?p = "paramsForQuality 100"
  note dims = sampleWide_dims
  have pq: "minBlock ?p = 1" by (simp add: paramsForQuality_def)
  have "collectRegionColors sampleWide 0 0 (2 ^ 16) 1 ?p ([], []) =
     Some ([] @ RGBA 255 255 255 255 # replicate 16 (RGBA 0 0 0 255),
           [] @ replicate 16 False @ replicate (Suc 16) True)"
    by (rule collect_wide) simp
  moreover have "replicate 16 False = False # replicate 15 False"
    by (simp add: eval_nat_numeral)
  ultimately have c: "collectRegionColors sampleWide 0 0 65536 1 ?p ([], []) =
     Some (RGBA 255 255 255 255 # replicate 16 (RGBA 0 0 0 255),
           False # (replicate 15 False @ replicate 17 True))"
    by simp
  have cs: "collectRegionColorsStriped numCPU sampleWide ?p =
     Some (Inr (RGBA 255 255 255 255 # replicate 16 (RGBA 0 0 0 255),
                False # (replicate 15 False @ replicate 17 True)))"
    by (simp add: collectRegionColorsStriped_def dims pq splitStripes_one_row c)
  have bp: "buildPalettes (RGBA 255 255 255 255 # replicate 16 (RGBA 0 0 0 255)) ?p =
     Inr ([[RGBA 255 255 255 255, RGBA 0 0 0 255]],
          \<lparr>pal = 0, idx = 0\<rparr> # replicate 16 \<lparr>pal = 0, idx = 1\<rparr>)"
    by code_simp
  have tr: "uint (word_of_nat (rw sampleWide) :: 16 word) = 0"
       "uint (word_of_nat (rh sampleWide) :: 16 word) = 1"
    by (simp_all add: dims)
  show ?thesis
    unfolding Encode_def
    by (simp add: Let_def cs bp tr pq splitStripes_one_row encodeRegion_zero_width
          del: replicate.simps)
qed

lemma sampleWideBlack_dims: "rw sampleWideBlack = 65536" "rh sampleWideBlack = 1"
  by (simp_all add: sampleWideBlack_def)

lemma collect_wide_black:
  "collectRegionColors sampleWideBlack 0 0 65536 1 (paramsForQuality 100) ([], []) =
     Some ([RGBA 0 0 0 255], [True])"
proof -
  have "\<forall>i. nat 0 \<le> i \<and> i < nat (0 + 65536) \<longrightarrow> pix sampleWideBlack ! i = RGBA 0 0 0 255"
    by (simp add: sampleWideBlack_def)
  from analyzeBlock_black [OF sampleWideBlack_dims(2) _ _ _ this]
  obtain be ie where ab: "analyzeBlock sampleWideBlack 0 0 65536 1 = (0, be, ie, RGBA 0 0 0 255)"
    by (auto simp: sampleWideBlack_dims)
  show ?thesis
    using collect_leaf [OF ab, of "paramsForQuality 100" "[]" "[]"] by simp
qed

lemma paint_one_job:
  "paintLeafJobsParallel numCPU d p [job] = paintLeafJobsParallel 1 d p [job]"
  by (simp add: paintLeafJobsParallel_def Let_def)

lemma Encode_wide_black:
  "Encode numCPU zc sampleWideBlack 100 =
     Some (Inr ([66, 65, 66, 50, 0, 0, 0, 1, 100] @ zc [0, 1, 1, 0, 0, 0, 128, 0]))"
proof -
  let ?p = "paramsForQuality 100"
  have pq: "minBlock ?p = 1" by (simp add: paramsForQuality_def)
  have cs: "collectRegionColorsStriped numCPU sampleWideBlack ?p = Some (Inr ([RGBA 0 0 0 255], [True]))"
    by (simp add: collectRegionColorsStriped_def sampleWideBlack_dims pq splitStripes_one_row
          collect_wide_black)
  have bp: "buildPalettes [RGBA 0 0 0 255] ?p = Inr ([[RGBA 0 0 0 255]], [\<lparr>pal = 0, idx = 0\<rparr>])"
    by code_simp
  have tr: "uint (word_of_nat (rw sampleWideBlack) :: 16 word) = 0"
       "uint (word_of_nat (rh sampleWideBlack) :: 16 word) = 1"
    by (simp_all add: sampleWideBlack_dims)
  have "map_option (map_sum id (\<lambda>(bw, leafPos, patPos). wbuf (Flush bw)))
      (encodeStripes 0 ?p [0] [True] [\<lparr>sy = 0, sh = 1\<rparr>] (NewBitWriter [0, 1, 1, 0, 0, 0], 0, 0))
      = Some (Inr [0, 1, 1, 0, 0, 0, 128, 0])"
    by code_simp
  then obtain st where "encodeStripes 0 ?p [0] [True] [\<lparr>sy = 0, sh = 1\<rparr>]
        (NewBitWriter [0, 1, 1, 0, 0, 0], 0, 0) = Some (Inr st)"
      "(\<lambda>(bw, leafPos, patPos). wbuf (Flush bw)) st = [0, 1, 1, 0, 0, 0, 128, 0]"
    by (rule proj_Some_Inr)
  then obtain bw leafPos patPos where e: "encodeStripes 0 ?p [0] [True] [\<lparr>sy = 0, sh = 1\<rparr>]
        (NewBitWriter [0, 1, 1, 0, 0, 0], 0, 0) = Some (Inr (bw, leafPos, patPos))"
      "wbuf (Flush bw) = [0, 1, 1, 0, 0, 0, 128, 0]"
    by (cases st) (simp del: encodeStripes.simps)
  show ?thesis
    unfolding Encode_def
    by (simp add: Let_def cs bp tr pq splitStripes_one_row e sampleWideBlack_dims
          magicCodec2_def putUint16_def del: encodeStripes.simps)
qed

lemma Decode_wide_black:
  "Decode numCPU Some mix [66, 65, 66, 50, 0, 0, 0, 1, 100, 0, 1, 1, 0, 0, 0, 128, 0] =
     Some (Inr \<lparr>rw = 0, rh = 1, pix = []\<rparr>)"
proof -
  let ?p = "paramsForQuality 100"
  have pq: "minBlock ?p = 1" "maxGrad ?p = 1" by (simp_all add: paramsForQuality_def)
  have "map_option (map_sum id (\<lambda>(br, leafCounter, jobs). jobs))
      (decodeStripes 0 ?p [[RGBA 0 0 0 255]] [\<lparr>sy = 0, sh = 1\<rparr>] (NewBitReaderFromBytes [128, 0], 0, []))
      = Some (Inr [\<lparr>jx = 0, jy = 0, jw = 0, jh = 1, jpal = 0, jidx = 0\<rparr>])"
    by code_simp
  then obtain st where "decodeStripes 0 ?p [[RGBA 0 0 0 255]] [\<lparr>sy = 0, sh = 1\<rparr>]
        (NewBitReaderFromBytes [128, 0], 0, []) = Some (Inr st)"
      "(\<lambda>(br, leafCounter, jobs). jobs) st = [\<lparr>jx = 0, jy = 0, jw = 0, jh = 1, jpal = 0, jidx = 0\<rparr>]"
    by (rule proj_Some_Inr)
  then obtain br leafCounter where d: "decodeStripes 0 ?p [[RGBA 0 0 0 255]] [\<lparr>sy = 0, sh = 1\<rparr>]
        (NewBitReaderFromBytes [128, 0], 0, []) =
          Some (Inr (br, leafCounter, [\<lparr>jx = 0, jy = 0, jw = 0, jh = 1, jpal = 0, jidx = 0\<rparr>]))"
    by (cases st) (simp del: decodeStripes.simps)
  have p: "paintLeafJobsParallel numCPU (NewRGBA 0 (Suc 0)) [[RGBA 0 0 0 255]]
        [\<lparr>jx = 0, jy = 0, jw = 0, jh = 1, jpal = 0, jidx = 0\<rparr>] = Inr (NewRGBA 0 (Suc 0))"
    unfolding paint_one_job [of numCPU] by code_simp
  have s: "smoothEdges mix (NewRGBA 0 (Suc 0)) 1 = \<lparr>rw = 0, rh = 1, pix = []\<rparr>"
    by code_simp
  show ?thesis
    unfolding Decode_def
    by (simp add: Let_def pq splitStripes_one_row d p s magicCodec2_def del: decodeStripes.simps)
qed

text \<open>
  C9.  \<^verbatim>\<open>Encode\<close> writes \<^verbatim>\<open>uint16(Dx)\<close> and \<^verbatim>\<open>uint16(Dy)\<close> to the header and then runs its first
  pass (\<^verbatim>\<open>collectRegionColorsStriped\<close>) over the real size and its second pass (\<^verbatim>\<open>encodeRegion\<close>)
  over the truncated size \<^verbatim>\<open>int(w)\<close>, \<^verbatim>\<open>int(h)\<close>.  On the raster of 65536 columns with one white
  pixel the first pass splits the row (the pattern starts with an internal node), the second
  pass walks a region of width 0, cannot split it, and \<^verbatim>\<open>Encode\<close> fails with its error
  \<^verbatim>\<open>inconsistent pattern/geometry\<close>, on every host and for every compressor.  On the raster of
  65536 black columns the whole row is one leaf; \<^verbatim>\<open>Encode\<close> succeeds, the header holds
  width 0 and height 1, and \<^verbatim>\<open>Decode\<close> returns a raster of width 0.
\<close>

theorem Encode_fails_on_wide_raster:
  "Encode numCPU zstdCompress sampleWide 100 = Some (Inl ErrInconsistentPattern)
   \<and> Encode numCPU zstdCompress sampleWideBlack 100 =
       Some (Inr ([66, 65, 66, 50, 0, 0, 0, 1, 100] @ zstdCompress [0, 1, 1, 0, 0, 0, 128, 0]))
   \<and> Decode numCPU Some mix [66, 65, 66, 50, 0, 0, 0, 1, 100, 0, 1, 1, 0, 0, 0, 128, 0] =
       Some (Inr \<lparr>rw = 0, rh = 1, pix = []\<rparr>)"
  using Encode_wide_inconsistent Encode_wide_black Decode_wide_black by (intro conjI)

section \<open>The bit stream of the tree\<close>

text \<open>What \<^verbatim>\<open>WriteBit\<close>, \<^verbatim>\<open>WriteByte\<close>, \<^verbatim>\<open>ReadBit\<close> and \<^verbatim>\<open>ReadByte\<close> do to the bit stream.\<close>

lemma mask_test:
  "((b AND push_bit (7 - i) 1) \<noteq> 0) = bit b (7 - i)"
  "((b AND 2 ^ (7 - i)) \<noteq> 0) = bit b (7 - i)" for b :: byte
  by (simp_all add: bit_iff_and_push_bit_not_eq_0)

lemma length_bitsOfByte: "length (bitsOfByte b) = 8"
  by (simp add: bitsOfByte_def)

lemma take_bitsOfByte: "n \<le> 8 \<Longrightarrow> take n (bitsOfByte b) = map (\<lambda>i. bit b (7 - i)) [0..<n]"
  by (simp add: bitsOfByte_def take_map)

lemma drop_bitsOfByte: "drop n (bitsOfByte b) = map (\<lambda>i. bit b (7 - i)) [n..<8]"
  by (simp add: bitsOfByte_def drop_map)

lemma WriteBit_bits:
  assumes "writerOK bw"
  shows "writerOK (WriteBit bw v) \<and> writerBits (WriteBit bw v) = writerBits bw @ [v]"
proof -
  define n where "n = wnbit bw"
  define a where "a = (if v then wacc bw OR push_bit (7 - n) 1 else wacc bw)"
  have n: "n < 8" and z: "\<And>k. k < 8 - n \<Longrightarrow> \<not> bit (wacc bw) k"
    using assms by (auto simp: writerOK_def n_def)
  have hi: "bit a (7 - i) = bit (wacc bw) (7 - i)" if "i < n" for i
    using that n by (auto simp: a_def bit_or_iff bit_exp_iff)
  have at: "bit a (7 - n) = v"
    using n z [of "7 - n"] by (auto simp: a_def bit_or_iff bit_exp_iff)
  have lo: "\<not> bit a k" if "k < 7 - n" for k
    using that n z [of k] by (auto simp: a_def bit_or_iff bit_exp_iff)
  have tk: "take (Suc n) (bitsOfByte a) = take n (bitsOfByte (wacc bw)) @ [v]"
    using n hi at by (simp add: take_bitsOfByte)
  show ?thesis
  proof (cases "Suc n = 8")
    case True
    then have w: "WriteBit bw v = bw\<lparr>wbuf := wbuf bw @ [a], wacc := 0, wnbit := 0\<rparr>"
      by (auto simp: WriteBit_def Let_def a_def n_def)
    have "bitsOfByte a = take n (bitsOfByte (wacc bw)) @ [v]"
      using tk True length_bitsOfByte [of a] by simp
    then show ?thesis
      unfolding w by (simp add: writerOK_def writerBits_def n_def)
  next
    case False
    then have w: "WriteBit bw v = bw\<lparr>wacc := a, wnbit := Suc n\<rparr>"
      by (auto simp: WriteBit_def Let_def a_def n_def)
    have "Suc n < 8" using n False by simp
    moreover have "\<forall>k \<in> set [0..<8 - Suc n]. \<not> bit a k" using lo by simp
    ultimately show ?thesis
      unfolding w by (simp add: writerOK_def writerBits_def tk) (simp add: n_def)
  qed
qed


lemma fold_WriteBit_bits:
  assumes "writerOK bw"
  shows "writerOK (fold (\<lambda>i bw. WriteBit bw (f i)) is bw)
       \<and> writerBits (fold (\<lambda>i bw. WriteBit bw (f i)) is bw) = writerBits bw @ map f is"
  using assms
proof (induction "is" arbitrary: bw)
  case Nil
  then show ?case by simp
next
  case (Cons i "is")
  from WriteBit_bits [OF Cons.prems, of "f i"]
  have 1: "writerOK (WriteBit bw (f i))" "writerBits (WriteBit bw (f i)) = writerBits bw @ [f i]"
    by simp_all
  from Cons.IH [OF 1(1)] 1(2) show ?case by simp
qed

lemma WriteByte_bits:
  assumes "writerOK bw"
  shows "writerOK (WriteByte bw b) \<and> writerBits (WriteByte bw b) = writerBits bw @ bitsOfByte b"
proof (cases "wnbit bw = 0")
  case True
  then show ?thesis
    using assms by (simp add: WriteByte_def writerOK_def writerBits_def)
next
  case False
  have "WriteByte bw b = fold (\<lambda>i bw. WriteBit bw (bit b (7 - i))) [0..<8] bw"
    using False by (simp only: WriteByte_def mask_test(1) if_False)
  then show ?thesis
    using fold_WriteBit_bits [OF assms, of "\<lambda>i. bit b (7 - i)" "[0..<8]"]
    by (simp add: bitsOfByte_def)
qed

lemma encodeLeaf_bits:
  assumes "writerOK bw"
  shows "writerOK (encodeLeaf bw b) \<and> writerBits (encodeLeaf bw b) = writerBits bw @ True # bitsOfByte b"
  using WriteBit_bits [OF assms, of True] WriteByte_bits [of "WriteBit bw True" b]
  by (simp add: encodeLeaf_def)

lemma ReadBit_bits:
  assumes "readerOK br" "readerBits br = b # bs"
  shows "\<exists>br'. ReadBit br = Inr (b, br') \<and> readerOK br' \<and> readerBits br' = bs"
proof (cases "rnbit br = 0")
  case True
  have ne: "concat (map bitsOfByte (drop (rpos br) (rdata br))) = b # bs"
    using assms(2) True by (simp add: readerBits_def length_bitsOfByte)
  then have lt: "rpos br < length (rdata br)" by (cases "rpos br < length (rdata br)") auto
  define a where "a = rdata br ! rpos br"
  have d: "drop (rpos br) (rdata br) = a # drop (Suc (rpos br)) (rdata br)"
    using lt by (simp add: a_def Cons_nth_drop_Suc)
  define tl where "tl = map (\<lambda>i. bit a (7 - i)) [1..<8]"
  have h: "bitsOfByte a = bit a 7 # tl"
    by (simp add: bitsOfByte_def tl_def upt_rec)
  have "(bit a 7 # tl) @ concat (map bitsOfByte (drop (Suc (rpos br)) (rdata br))) = b # bs"
    using ne unfolding d by (simp add: h)
  then have bb: "b = bit a 7" "bs = drop 1 (bitsOfByte a) @ concat (map bitsOfByte (drop (Suc (rpos br)) (rdata br)))"
    by (simp_all add: h)
  have r: "ReadBit br = Inr (bit a 7, br\<lparr>racc := a, rpos := Suc (rpos br), rnbit := 1\<rparr>)"
    using True lt mask_test [of "rdata br ! rpos br" 0] by (simp add: ReadBit_def Let_def a_def)
  show ?thesis
    unfolding r bb by (simp add: readerOK_def readerBits_def)
next
  case False
  define n where "n = rnbit br"
  have n: "0 < n" "n < 8" using False assms(1) by (simp_all add: n_def readerOK_def)
  have "drop n (bitsOfByte (racc br)) = bit (racc br) (7 - n) # drop (Suc n) (bitsOfByte (racc br))"
    using n by (simp add: drop_bitsOfByte upt_conv_Cons)
  then have bb: "b = bit (racc br) (7 - n)"
      "bs = drop (Suc n) (bitsOfByte (racc br)) @ concat (map bitsOfByte (drop (rpos br) (rdata br)))"
    using assms(2) n by (simp_all add: readerBits_def n_def)
  have r: "ReadBit br = Inr (bit (racc br) (7 - n), br\<lparr>rnbit := (if Suc n = 8 then 0 else Suc n)\<rparr>)"
    using n by (simp add: ReadBit_def Let_def n_def mask_test)
  show ?thesis
  proof (cases "Suc n = 8")
    case True
    then show ?thesis
      unfolding r bb by (simp add: readerOK_def readerBits_def length_bitsOfByte)
  next
    case False
    then have "Suc n < 8" using n by simp
    then show ?thesis
      unfolding r bb using False by (simp add: readerOK_def readerBits_def)
  qed
qed

lemma ReadByteLoop_bits:
  assumes "readerOK br" "readerBits br = map f is @ rest"
  shows "\<exists>br'. ReadByteLoop is b br =
            Inr (fold (\<lambda>i b. if f i then b OR push_bit (7 - i) 1 else b) is b, br')
          \<and> readerOK br' \<and> readerBits br' = rest"
  using assms
proof (induction "is" arbitrary: b br)
  case Nil
  then show ?case by simp
next
  case (Cons i "is")
  have "readerBits br = f i # (map f is @ rest)" using Cons.prems(2) by simp
  from ReadBit_bits [OF Cons.prems(1) this]
  obtain br1 where 1: "ReadBit br = Inr (f i, br1)" "readerOK br1" "readerBits br1 = map f is @ rest"
    by blast
  from Cons.IH [OF 1(2,3), of "if f i then b OR push_bit (7 - i) 1 else b"] 1(1)
  show ?case by simp
qed

lemma assemble_bits:
  fixes v b0 :: byte
  shows "bit (fold (\<lambda>i b. if bit v (7 - i) then b OR push_bit (7 - i) 1 else b) is b0) n
           \<longleftrightarrow> bit b0 n \<or> (\<exists>i \<in> set is. n = 7 - i \<and> bit v n)"
proof (induction "is" arbitrary: b0)
  case Nil
  then show ?case by simp
next
  case (Cons i "is")
  have "bit (if bit v (7 - i) then b0 OR push_bit (7 - i) 1 else b0) n
          \<longleftrightarrow> bit b0 n \<or> (n = 7 - i \<and> bit v n)"
    by (auto simp: bit_or_iff bit_exp_iff dest: bit_imp_possible_bit)
  then show ?case unfolding fold_Cons comp_def Cons.IH by auto
qed

lemma assemble_byte:
  fixes v :: byte
  shows "fold (\<lambda>i b. if bit v (7 - i) then b OR push_bit (7 - i) 1 else b) [0..<8] 0 = v"
proof (rule bit_eqI)
  fix n
  have 2: "\<exists>i \<in> set [0..<8]. n = 7 - i" if "n < 8"
  proof -
    have "7 - n \<in> set [0..<8]" "n = 7 - (7 - n)" using that by auto
    then show ?thesis by blast
  qed
  have 3: "n < 8" if "bit v n" using bit_imp_le_length [OF that] by simp
  have "bit (fold (\<lambda>i b. if bit v (7 - i) then b OR push_bit (7 - i) 1 else b) [0..<8] (0::byte)) n
        \<longleftrightarrow> bit (0::byte) n \<or> ((\<exists>i \<in> set [0..<8]. n = 7 - i) \<and> bit v n)"
    using assemble_bits [of v "[0..<8]" 0 n] by blast
  also have "\<dots> \<longleftrightarrow> bit v n" using 2 3 by auto
  finally show "bit (fold (\<lambda>i b. if bit v (7 - i) then b OR push_bit (7 - i) 1 else b) [0..<8] (0::byte)) n
      = bit v n" .
qed

lemma bitsOfByte_inj:
  assumes "bitsOfByte a = bitsOfByte v"
  shows "a = v"
proof (rule bit_eqI)
  fix n
  have all: "\<forall>i \<in> set [0..<8]. bit a (7 - i) = bit v (7 - i)"
    using assms unfolding bitsOfByte_def map_eq_conv .
  show "bit a n = bit v n"
  proof (cases "n < 8")
    case True
    then have "7 - n \<in> set [0..<8]" "7 - (7 - n) = n" by auto
    with all show ?thesis by metis
  next
    case False
    then show ?thesis using bit_imp_le_length [of a n] bit_imp_le_length [of v n] by auto
  qed
qed

lemma ReadByte_bits:
  assumes "readerOK br" "readerBits br = bitsOfByte v @ rest"
  shows "\<exists>br'. ReadByte br = Inr (v, br') \<and> readerOK br' \<and> readerBits br' = rest"
proof (cases "rnbit br = 0")
  case True
  have ne: "concat (map bitsOfByte (drop (rpos br) (rdata br))) = bitsOfByte v @ rest"
    using assms(2) True by (simp add: readerBits_def length_bitsOfByte)
  have lt: "rpos br < length (rdata br)"
  proof (rule ccontr)
    assume "\<not> rpos br < length (rdata br)"
    then have "bitsOfByte v @ rest = []" using ne by simp
    then show False using length_bitsOfByte [of v] by simp
  qed
  define a where "a = rdata br ! rpos br"
  have d: "drop (rpos br) (rdata br) = a # drop (Suc (rpos br)) (rdata br)"
    using lt by (simp add: a_def Cons_nth_drop_Suc)
  have e: "bitsOfByte a = bitsOfByte v" "rest = concat (map bitsOfByte (drop (Suc (rpos br)) (rdata br)))"
    using ne unfolding d by (simp_all add: append_eq_append_conv length_bitsOfByte)
  have "a = v" using e(1) by (rule bitsOfByte_inj)
  then have r: "ReadByte br = Inr (v, br\<lparr>rpos := Suc (rpos br)\<rparr>)"
    using True lt by (simp add: ReadByte_def a_def)
  show ?thesis
    unfolding r using assms(1) True e(2) by (simp add: readerOK_def readerBits_def length_bitsOfByte)
next
  case False
  have "readerBits br = map (\<lambda>i. bit v (7 - i)) [0..<8] @ rest"
    using assms(2) by (simp add: bitsOfByte_def)
  from ReadByteLoop_bits [OF assms(1) this, of 0] False
  show ?thesis by (simp add: ReadByte_def assemble_byte)
qed

lemma list_all_upt_add:
  "list_all P [0..<n1 + n2] \<longleftrightarrow> list_all P [0..<n1] \<and> list_all (\<lambda>k. P (k + n1)) [0..<n2]"
proof -
  have "[0..<n1 + n2] = [0..<n1] @ map (\<lambda>k. k + n1) [0..<n2]"
    using upt_add_eq_append [of 0 n1 n2] map_add_upt [of n1 n2] by (simp add: add.commute)
  then show ?thesis by (simp add: list.pred_map comp_def)
qed

lemma validPal_append:
  "validPal palettes cnt (l1 @ l2) \<longleftrightarrow>
     validPal palettes cnt l1 \<and> validPal palettes (cnt + int (length l1)) l2"
proof -
  let ?P = "\<lambda>ls c k. (c + int k) div 256 < int (length palettes)
                 \<and> uint (ls ! k) < int (length (palettes ! nat ((c + int k) div 256)))"
  have 1: "list_all (?P (l1 @ l2) cnt) [0..<length l1] \<longleftrightarrow> list_all (?P l1 cnt) [0..<length l1]"
    by (rule list_all_cong) (simp_all add: nth_append)
  have 2: "list_all (\<lambda>k. ?P (l1 @ l2) cnt (k + length l1)) [0..<length l2]
       \<longleftrightarrow> list_all (?P l2 (cnt + int (length l1))) [0..<length l2]"
    by (rule list_all_cong) (simp_all add: nth_append add.commute add.left_commute)
  show ?thesis
    unfolding validPal_def length_append list_all_upt_add 1 2 ..
qed

lemma decode_leaf_step:
  assumes "readerOK br" "readerBits br = True # bitsOfByte b @ rest" "0 \<le> cnt"
      and "validPal palettes cnt [b]"
  shows "\<exists>br'. decodeRegionJobs x y w h params palettes (br, cnt, jobs) =
            Some (Inr (br', cnt + 1,
                       jobs @ [\<lparr>jx = x, jy = y, jw = w, jh = h, jpal = cnt div 256, jidx = uint b\<rparr>]))
          \<and> readerOK br' \<and> readerBits br' = rest"
proof -
  from ReadBit_bits [OF assms(1,2)]
  obtain br1 where 1: "ReadBit br = Inr (True, br1)" "readerOK br1" "readerBits br1 = bitsOfByte b @ rest"
    by blast
  from ReadByte_bits [OF 1(2,3)]
  obtain br2 where 2: "ReadByte br1 = Inr (b, br2)" "readerOK br2" "readerBits br2 = rest"
    by blast
  have g: "goDiv cnt 256 = cnt div 256" using assms(3) by (simp add: goDiv_nonneg)
  have p: "0 \<le> cnt div 256" using assms(3) by simp
  have v: "cnt div 256 < int (length palettes)"
      "uint b < int (length (palettes ! nat (cnt div 256)))"
    using assms(4) by (simp_all add: validPal_def)
  have "decodeLeafJob x y w h palettes (br1, cnt, jobs) =
      Inr (br2, cnt + 1, jobs @ [\<lparr>jx = x, jy = y, jw = w, jh = h, jpal = cnt div 256, jidx = uint b\<rparr>])"
    using p v by (simp add: decodeLeafJob_def 2(1) g Let_def)
  then have "decodeRegionJobs x y w h params palettes (br, cnt, jobs) =
      Some (Inr (br2, cnt + 1, jobs @ [\<lparr>jx = x, jy = y, jw = w, jh = h, jpal = cnt div 256, jidx = uint b\<rparr>]))"
    by (subst decodeRegionJobs.simps) (simp add: 1(1))
  then show ?thesis using 2(2,3) by blast
qed

lemma decode_node_step:
  assumes "readerOK br" "readerBits br = False # bits"
  shows "\<exists>br1. readerOK br1 \<and> readerBits br1 = bits
     \<and> (w \<ge> h \<and> goDiv w 2 \<ge> minBlock params \<longrightarrow>
          decodeRegionJobs x y w h params palettes (br, cnt, jobs) =
            Option.bind (decodeRegionJobs x y (goDiv w 2) h params palettes (br1, cnt, jobs))
              (\<lambda>r. case r of Inl e \<Rightarrow> Some (Inl e)
                    | Inr st \<Rightarrow> decodeRegionJobs (x + goDiv w 2) y (w - goDiv w 2) h params palettes st))
     \<and> (\<not> (w \<ge> h \<and> goDiv w 2 \<ge> minBlock params) \<and> 0 < goDiv h 2 \<longrightarrow>
          decodeRegionJobs x y w h params palettes (br, cnt, jobs) =
            Option.bind (decodeRegionJobs x y w (goDiv h 2) params palettes (br1, cnt, jobs))
              (\<lambda>r. case r of Inl e \<Rightarrow> Some (Inl e)
                    | Inr st \<Rightarrow> decodeRegionJobs x (y + goDiv h 2) w (h - goDiv h 2) params palettes st))"
proof -
  from ReadBit_bits [OF assms]
  obtain br1 where 1: "ReadBit br = Inr (False, br1)" "readerOK br1" "readerBits br1 = bits"
    by blast
  have a: "decodeRegionJobs x y w h params palettes (br, cnt, jobs) =
            Option.bind (decodeRegionJobs x y (goDiv w 2) h params palettes (br1, cnt, jobs))
              (\<lambda>r. case r of Inl e \<Rightarrow> Some (Inl e)
                    | Inr st \<Rightarrow> decodeRegionJobs (x + goDiv w 2) y (w - goDiv w 2) h params palettes st)"
    if "w \<ge> h \<and> goDiv w 2 \<ge> minBlock params"
    by (subst decodeRegionJobs.simps) (simp add: 1(1) that Let_def)
  have b: "decodeRegionJobs x y w h params palettes (br, cnt, jobs) =
            Option.bind (decodeRegionJobs x y w (goDiv h 2) params palettes (br1, cnt, jobs))
              (\<lambda>r. case r of Inl e \<Rightarrow> Some (Inl e)
                    | Inr st \<Rightarrow> decodeRegionJobs x (y + goDiv h 2) w (h - goDiv h 2) params palettes st)"
    if "\<not> (w \<ge> h \<and> goDiv w 2 \<ge> minBlock params) \<and> 0 < goDiv h 2"
  proof -
    have c1: "\<not> (w \<ge> h \<and> goDiv w 2 \<ge> minBlock params)" and c2: "\<not> goDiv h 2 \<le> 0"
      using that by simp_all
    show ?thesis
      by (subst decodeRegionJobs.simps)
         (simp only: prod.case sum.case 1(1) c1 c2 if_False if_True Let_def simp_thms)
  qed
  from 1(2,3) a b show ?thesis by blast
qed

lemma decode_compose:
  fixes D1 D2 :: "BitReader \<times> int \<times> leafJob list \<Rightarrow> (error + BitReader \<times> int \<times> leafJob list) option"
  assumes d1: "\<And>br cnt jobs rest. readerOK br \<Longrightarrow> readerBits br = wire t1 @ rest \<Longrightarrow> 0 \<le> cnt
             \<Longrightarrow> validPal palettes cnt (leavesOf t1)
             \<Longrightarrow> \<exists>br' js. D1 (br, cnt, jobs) = Some (Inr (br', cnt + int (length (leavesOf t1)), jobs @ js))
                   \<and> readerOK br' \<and> readerBits br' = rest
                   \<and> map jidx js = map uint (leavesOf t1)
                   \<and> map jpal js = map (\<lambda>k. (cnt + int k) div 256) [0..<length (leavesOf t1)]"
      and d2: "\<And>br cnt jobs rest. readerOK br \<Longrightarrow> readerBits br = wire t2 @ rest \<Longrightarrow> 0 \<le> cnt
             \<Longrightarrow> validPal palettes cnt (leavesOf t2)
             \<Longrightarrow> \<exists>br' js. D2 (br, cnt, jobs) = Some (Inr (br', cnt + int (length (leavesOf t2)), jobs @ js))
                   \<and> readerOK br' \<and> readerBits br' = rest
                   \<and> map jidx js = map uint (leavesOf t2)
                   \<and> map jpal js = map (\<lambda>k. (cnt + int k) div 256) [0..<length (leavesOf t2)]"
      and br: "readerOK br1" "readerBits br1 = wire t1 @ wire t2 @ rest" "0 \<le> cnt"
      and vp: "validPal palettes cnt (leavesOf t1 @ leavesOf t2)"
  shows "\<exists>br' js. Option.bind (D1 (br1, cnt, jobs)) (\<lambda>r. case r of Inl e \<Rightarrow> Some (Inl e) | Inr st \<Rightarrow> D2 st)
              = Some (Inr (br', cnt + int (length (leavesOf t1 @ leavesOf t2)), jobs @ js))
          \<and> readerOK br' \<and> readerBits br' = rest
          \<and> map jidx js = map uint (leavesOf t1 @ leavesOf t2)
          \<and> map jpal js = map (\<lambda>k. (cnt + int k) div 256) [0..<length (leavesOf t1 @ leavesOf t2)]"
proof -
  let ?n1 = "length (leavesOf t1)" and ?n2 = "length (leavesOf t2)"
  have v: "validPal palettes cnt (leavesOf t1)" "validPal palettes (cnt + int ?n1) (leavesOf t2)"
    using vp by (simp_all add: validPal_append)
  from d1 [OF br(1,2,3) v(1), of jobs]
  obtain br2 js1 where 1: "D1 (br1, cnt, jobs) = Some (Inr (br2, cnt + int ?n1, jobs @ js1))"
      "readerOK br2" "readerBits br2 = wire t2 @ rest" "map jidx js1 = map uint (leavesOf t1)"
      "map jpal js1 = map (\<lambda>k. (cnt + int k) div 256) [0..<?n1]"
    by blast
  have c: "0 \<le> cnt + int ?n1" using br(3) by simp
  from d2 [OF 1(2,3) c v(2), of "jobs @ js1"]
  obtain br3 js2 where 2: "D2 (br2, cnt + int ?n1, jobs @ js1) =
        Some (Inr (br3, cnt + int ?n1 + int ?n2, (jobs @ js1) @ js2))"
      "readerOK br3" "readerBits br3 = rest" "map jidx js2 = map uint (leavesOf t2)"
      "map jpal js2 = map (\<lambda>k. (cnt + int ?n1 + int k) div 256) [0..<?n2]"
    by blast
  have r: "Option.bind (D1 (br1, cnt, jobs)) (\<lambda>r. case r of Inl e \<Rightarrow> Some (Inl e) | Inr st \<Rightarrow> D2 st)
         = Some (Inr (br3, cnt + int (length (leavesOf t1 @ leavesOf t2)), jobs @ (js1 @ js2)))"
    by (simp add: 1(1) 2(1))
  have u: "[0..<?n1 + ?n2] = [0..<?n1] @ map (\<lambda>k. k + ?n1) [0..<?n2]"
    using upt_add_eq_append [of 0 ?n1 ?n2] map_add_upt [of ?n1 ?n2] by (simp add: add.commute)
  have p: "map jpal (js1 @ js2) = map (\<lambda>k. (cnt + int k) div 256) [0..<length (leavesOf t1 @ leavesOf t2)]"
    unfolding length_append u by (simp add: 1(5) 2(5) comp_def add.commute add.left_commute)
  have i: "map jidx (js1 @ js2) = map uint (leavesOf t1 @ leavesOf t2)"
    by (simp add: 1(4) 2(4))
  from r 2(2,3) i p show ?thesis by blast
qed

lemma region_core:
  assumes mb: "1 \<le> minBlock params"
  shows "encodeRegion x y w h params leafLocal pattern (bw, lp, pp) = Some (Inr (bw', lp', pp'))
     \<Longrightarrow> writerOK bw
     \<Longrightarrow> \<exists>t. (drop pp pattern = shape t @ drop pp' pattern
       \<and> pp' = pp + length (shape t)
       \<and> drop lp leafLocal = leavesOf t @ drop lp' leafLocal
       \<and> lp' = lp + length (leavesOf t)
       \<and> writerOK bw'
       \<and> writerBits bw' = writerBits bw @ wire t)
       \<and> (\<forall>br cnt jobs rest. readerOK br \<longrightarrow> readerBits br = wire t @ rest \<longrightarrow> 0 \<le> cnt
              \<longrightarrow> validPal palettes cnt (leavesOf t)
              \<longrightarrow> (\<exists>br' js. decodeRegionJobs x y w h params palettes (br, cnt, jobs) =
                             Some (Inr (br', cnt + int (length (leavesOf t)), jobs @ js))
                    \<and> readerOK br' \<and> readerBits br' = rest
                    \<and> map jidx js = map uint (leavesOf t)
                    \<and> map jpal js = map (\<lambda>k. (cnt + int k) div 256) [0..<length (leavesOf t)]))"
proof (induction "length pattern - pp" arbitrary: x y w h bw lp pp bw' lp' pp' rule: less_induct)
  case less
  note enc = less.prems(1) and ok = less.prems(2)
  have pplt: "pp < length pattern"
  proof (rule ccontr)
    assume "\<not> pp < length pattern"
    then have "encodeRegion x y w h params leafLocal pattern (bw, lp, pp) = Some (Inl ErrPatternOverflow)"
      by (subst encodeRegion.simps) simp
    with enc show False by simp
  qed
  then have pp_ok: "\<not> pp \<ge> length pattern" by simp
  show ?case
  proof (cases "pattern ! pp")
    case leaf: True
    have lplt: "lp < length leafLocal"
    proof (rule ccontr)
      assume "\<not> lp < length leafLocal"
      then have "encodeRegion x y w h params leafLocal pattern (bw, lp, pp) = Some (Inl ErrLeafIndexOverflow)"
        using pplt leaf by (subst encodeRegion.simps) (simp add: Let_def)
      with enc show False by simp
    qed
    have "encodeRegion x y w h params leafLocal pattern (bw, lp, pp) =
        Some (Inr (encodeLeaf bw (leafLocal ! lp), lp + 1, pp + 1))"
      using pplt leaf lplt by (subst encodeRegion.simps) (simp add: Let_def)
    with enc have eq: "bw' = encodeLeaf bw (leafLocal ! lp)" "lp' = Suc lp" "pp' = Suc pp" by simp_all
    let ?b = "leafLocal ! lp"
    let ?t = "WLeaf ?b"
    have hd: "drop pp pattern = True # drop (Suc pp) pattern"
      using Cons_nth_drop_Suc [OF pplt] leaf by simp
    have hl: "drop lp leafLocal = ?b # drop (Suc lp) leafLocal"
      using Cons_nth_drop_Suc [OF lplt] by simp
    have A1: "drop pp pattern = shape ?t @ drop pp' pattern" unfolding hd eq by simp
    have A2: "pp' = pp + length (shape ?t)" unfolding eq by simp
    have A3: "drop lp leafLocal = leavesOf ?t @ drop lp' leafLocal" unfolding hl eq by simp
    have A4: "lp' = lp + length (leavesOf ?t)" unfolding eq by simp
    have A5: "writerOK bw'" and A6: "writerBits bw' = writerBits bw @ wire ?t"
      using encodeLeaf_bits [OF ok, of ?b] unfolding eq by simp_all
    have B: "(\<forall>br cnt jobs rest. readerOK br \<longrightarrow> readerBits br = wire ?t @ rest \<longrightarrow> 0 \<le> cnt
              \<longrightarrow> validPal palettes cnt (leavesOf ?t)
              \<longrightarrow> (\<exists>br' js. decodeRegionJobs x y w h params palettes (br, cnt, jobs) =
                             Some (Inr (br', cnt + int (length (leavesOf ?t)), jobs @ js))
                    \<and> readerOK br' \<and> readerBits br' = rest
                    \<and> map jidx js = map uint (leavesOf ?t)
                    \<and> map jpal js = map (\<lambda>k. (cnt + int k) div 256) [0..<length (leavesOf ?t)]))"
    proof (intro allI impI)
      fix br cnt jobs rest
      assume rb: "readerOK br" "readerBits br = wire ?t @ rest" "0 \<le> cnt"
          "validPal palettes cnt (leavesOf ?t)"
      have "readerBits br = True # bitsOfByte ?b @ rest" using rb(2) by simp
      moreover have "validPal palettes cnt [?b]" using rb(4) by simp
      ultimately obtain br' where "decodeRegionJobs x y w h params palettes (br, cnt, jobs) =
            Some (Inr (br', cnt + 1,
                       jobs @ [\<lparr>jx = x, jy = y, jw = w, jh = h, jpal = cnt div 256, jidx = uint ?b\<rparr>]))"
          "readerOK br'" "readerBits br' = rest"
        using decode_leaf_step [OF rb(1) _ rb(3), of ?b rest palettes x y w h params jobs] by blast
      then show "\<exists>br' js. decodeRegionJobs x y w h params palettes (br, cnt, jobs) =
                             Some (Inr (br', cnt + int (length (leavesOf ?t)), jobs @ js))
                    \<and> readerOK br' \<and> readerBits br' = rest
                    \<and> map jidx js = map uint (leavesOf ?t)
                    \<and> map jpal js = map (\<lambda>k. (cnt + int k) div 256) [0..<length (leavesOf ?t)]"
        by (intro exI [of _ br'] exI [of _ "[\<lparr>jx = x, jy = y, jw = w, jh = h, jpal = cnt div 256, jidx = uint ?b\<rparr>]"]) simp
    qed
    show ?thesis
      by (rule exI [of _ ?t]) (intro conjI A1 A2 A3 A4 A5 A6 B)
  next
    case False
    then have node: "pattern ! pp = False" by simp
    define bw1 where "bw1 = WriteBit bw False"
    have ok1: "writerOK bw1" and bits1: "writerBits bw1 = writerBits bw @ [False]"
      using WriteBit_bits [OF ok, of False] by (simp_all add: bw1_def)
    show ?thesis
    proof (cases "w \<ge> h \<and> goDiv w 2 \<ge> minBlock params")
      case cw: True

      have r: "encodeRegion x y w h params leafLocal pattern (bw, lp, pp) =
          Option.bind (encodeRegion x y (goDiv w 2) h params leafLocal pattern (bw1, lp, Suc pp))
            (\<lambda>r. case r of Inl e \<Rightarrow> Some (Inl e)
                  | Inr st \<Rightarrow> encodeRegion (x + goDiv w 2) y (w - goDiv w 2) h params leafLocal pattern st)"
        by (subst encodeRegion.simps)
           (simp only: prod.case pp_ok node cw if_False if_True Let_def simp_thms bw1_def Suc_eq_plus1)
      obtain bw2 lp2 pp2 where e1: "encodeRegion x y (goDiv w 2) h params leafLocal pattern (bw1, lp, Suc pp)
            = Some (Inr (bw2, lp2, pp2))"
          and e2: "encodeRegion (x + goDiv w 2) y (w - goDiv w 2) h params leafLocal pattern (bw2, lp2, pp2)
            = Some (Inr (bw', lp', pp'))"
      proof -
        from enc [unfolded r] obtain r1 where a: "encodeRegion x y (goDiv w 2) h params leafLocal pattern (bw1, lp, Suc pp) = Some r1"
            and b: "(case r1 of Inl e \<Rightarrow> Some (Inl e)
                  | Inr st \<Rightarrow> encodeRegion (x + goDiv w 2) y (w - goDiv w 2) h params leafLocal pattern st) = Some (Inr (bw', lp', pp'))"
          unfolding bind_eq_Some_conv by blast
        show ?thesis
        proof (cases r1)
          case (Inl e)
          with b show ?thesis by simp
        next
          case (Inr st)
          obtain bwa lpa ppa where st: "st = (bwa, lpa, ppa)" by (cases st)
          from a b show ?thesis unfolding Inr st sum.case by (rule that)
        qed
      qed
      have m1: "length pattern - Suc pp < length pattern - pp" using pplt by simp
      from less.hyps [OF m1 e1 ok1]
      obtain t1 where c1: "(drop (Suc pp) pattern = shape t1 @ drop pp2 pattern
       \<and> pp2 = (Suc pp) + length (shape t1)
       \<and> drop lp leafLocal = leavesOf t1 @ drop lp2 leafLocal
       \<and> lp2 = lp + length (leavesOf t1)
       \<and> writerOK bw2
       \<and> writerBits bw2 = writerBits bw1 @ wire t1)
       \<and> (\<forall>br cnt jobs rest. readerOK br \<longrightarrow> readerBits br = wire t1 @ rest \<longrightarrow> 0 \<le> cnt
              \<longrightarrow> validPal palettes cnt (leavesOf t1)
              \<longrightarrow> (\<exists>br' js. decodeRegionJobs x y (goDiv w 2) h params palettes (br, cnt, jobs) =
                             Some (Inr (br', cnt + int (length (leavesOf t1)), jobs @ js))
                    \<and> readerOK br' \<and> readerBits br' = rest
                    \<and> map jidx js = map uint (leavesOf t1)
                    \<and> map jpal js = map (\<lambda>k. (cnt + int k) div 256) [0..<length (leavesOf t1)]))" ..
      note d1 = c1 [THEN conjunct2]
      from c1 [THEN conjunct1] have t1: "drop (Suc pp) pattern = shape t1 @ drop pp2 pattern" "pp2 = (Suc pp) + length (shape t1)" "drop lp leafLocal = leavesOf t1 @ drop lp2 leafLocal" "lp2 = lp + length (leavesOf t1)" "writerOK bw2" "writerBits bw2 = writerBits bw1 @ wire t1"
        by blast+
      have m2: "length pattern - pp2 < length pattern - pp" using pplt t1(2) by simp
      from less.hyps [OF m2 e2 t1(5)]
      obtain t2 where c2: "(drop pp2 pattern = shape t2 @ drop pp' pattern
       \<and> pp' = pp2 + length (shape t2)
       \<and> drop lp2 leafLocal = leavesOf t2 @ drop lp' leafLocal
       \<and> lp' = lp2 + length (leavesOf t2)
       \<and> writerOK bw'
       \<and> writerBits bw' = writerBits bw2 @ wire t2)
       \<and> (\<forall>br cnt jobs rest. readerOK br \<longrightarrow> readerBits br = wire t2 @ rest \<longrightarrow> 0 \<le> cnt
              \<longrightarrow> validPal palettes cnt (leavesOf t2)
              \<longrightarrow> (\<exists>br' js. decodeRegionJobs (x + goDiv w 2) y (w - goDiv w 2) h params palettes (br, cnt, jobs) =
                             Some (Inr (br', cnt + int (length (leavesOf t2)), jobs @ js))
                    \<and> readerOK br' \<and> readerBits br' = rest
                    \<and> map jidx js = map uint (leavesOf t2)
                    \<and> map jpal js = map (\<lambda>k. (cnt + int k) div 256) [0..<length (leavesOf t2)]))" ..
      note d2 = c2 [THEN conjunct2]
      from c2 [THEN conjunct1] have t2: "drop pp2 pattern = shape t2 @ drop pp' pattern" "pp' = pp2 + length (shape t2)" "drop lp2 leafLocal = leavesOf t2 @ drop lp' leafLocal" "lp' = lp2 + length (leavesOf t2)" "writerOK bw'" "writerBits bw' = writerBits bw2 @ wire t2"
        by blast+
      let ?t = "WNode t1 t2"
      have hd: "drop pp pattern = False # drop (Suc pp) pattern"
        using Cons_nth_drop_Suc [OF pplt] node by simp
      have A1: "drop pp pattern = shape ?t @ drop pp' pattern"
        unfolding hd t1(1) t2(1) by simp
      have A2: "pp' = pp + length (shape ?t)"
        unfolding t2(2) t1(2) by simp
      have A3: "drop lp leafLocal = leavesOf ?t @ drop lp' leafLocal"
        unfolding t1(3) t2(3) by simp
      have A4: "lp' = lp + length (leavesOf ?t)"
        unfolding t2(4) t1(4) by simp
      have A6: "writerBits bw' = writerBits bw @ wire ?t"
        unfolding t2(6) t1(6) bits1 by simp
      have B: "(\<forall>br cnt jobs rest. readerOK br \<longrightarrow> readerBits br = wire ?t @ rest \<longrightarrow> 0 \<le> cnt
              \<longrightarrow> validPal palettes cnt (leavesOf ?t)
              \<longrightarrow> (\<exists>br' js. decodeRegionJobs x y w h params palettes (br, cnt, jobs) =
                             Some (Inr (br', cnt + int (length (leavesOf ?t)), jobs @ js))
                    \<and> readerOK br' \<and> readerBits br' = rest
                    \<and> map jidx js = map uint (leavesOf ?t)
                    \<and> map jpal js = map (\<lambda>k. (cnt + int k) div 256) [0..<length (leavesOf ?t)]))"
      proof (intro allI impI)
        fix br cnt jobs rest
        assume rb: "readerOK br" "readerBits br = wire ?t @ rest" "0 \<le> cnt"
            "validPal palettes cnt (leavesOf ?t)"
        have "readerBits br = False # (wire t1 @ wire t2 @ rest)" using rb(2) by simp
        from decode_node_step [OF rb(1) this, of h w params x y palettes cnt jobs]
        obtain br1 where b1: "readerOK br1" "readerBits br1 = wire t1 @ wire t2 @ rest"
            and red: "decodeRegionJobs x y w h params palettes (br, cnt, jobs) =
              Option.bind (decodeRegionJobs x y (goDiv w 2) h params palettes (br1, cnt, jobs))
                (\<lambda>r. case r of Inl e \<Rightarrow> Some (Inl e)
                      | Inr st \<Rightarrow> decodeRegionJobs (x + goDiv w 2) y (w - goDiv w 2) h params palettes st)"
          using cw by blast
        have v: "validPal palettes cnt (leavesOf t1 @ leavesOf t2)" using rb(4) by simp
        from decode_compose [where ?D1.0 = "decodeRegionJobs x y (goDiv w 2) h params palettes"
              and ?D2.0 = "decodeRegionJobs (x + goDiv w 2) y (w - goDiv w 2) h params palettes"
              and ?t1.0 = t1 and ?t2.0 = t2 and palettes = palettes,
              OF d1 [rule_format] d2 [rule_format] b1 rb(3) v, of jobs]
        show "\<exists>br' js. decodeRegionJobs x y w h params palettes (br, cnt, jobs) =
                             Some (Inr (br', cnt + int (length (leavesOf ?t)), jobs @ js))
                    \<and> readerOK br' \<and> readerBits br' = rest
                    \<and> map jidx js = map uint (leavesOf ?t)
                    \<and> map jpal js = map (\<lambda>k. (cnt + int k) div 256) [0..<length (leavesOf ?t)]"
          unfolding red leavesOf.simps .
      qed
      show ?thesis
        by (rule exI [of _ ?t]) (intro conjI A1 A2 A3 A4 t2(5) A6 B)

    next
      case cw: False
      have ch: "\<not> goDiv h 2 < minBlock params"
      proof
        assume a: "goDiv h 2 < minBlock params"
        have "encodeRegion x y w h params leafLocal pattern (bw, lp, pp) = Some (Inl ErrInconsistentPattern)"
          by (subst encodeRegion.simps)
             (simp only: prod.case pp_ok node cw a if_False if_True Let_def simp_thms)
        with enc show False by simp
      qed
      have hpos: "0 < goDiv h 2" using ch mb by linarith

      have r: "encodeRegion x y w h params leafLocal pattern (bw, lp, pp) =
          Option.bind (encodeRegion x y w (goDiv h 2) params leafLocal pattern (bw1, lp, Suc pp))
            (\<lambda>r. case r of Inl e \<Rightarrow> Some (Inl e)
                  | Inr st \<Rightarrow> encodeRegion x (y + goDiv h 2) w (h - goDiv h 2) params leafLocal pattern st)"
        by (subst encodeRegion.simps)
           (simp only: prod.case pp_ok node cw ch if_False if_True Let_def simp_thms bw1_def Suc_eq_plus1)
      obtain bw2 lp2 pp2 where e1: "encodeRegion x y w (goDiv h 2) params leafLocal pattern (bw1, lp, Suc pp)
            = Some (Inr (bw2, lp2, pp2))"
          and e2: "encodeRegion x (y + goDiv h 2) w (h - goDiv h 2) params leafLocal pattern (bw2, lp2, pp2)
            = Some (Inr (bw', lp', pp'))"
      proof -
        from enc [unfolded r] obtain r1 where a: "encodeRegion x y w (goDiv h 2) params leafLocal pattern (bw1, lp, Suc pp) = Some r1"
            and b: "(case r1 of Inl e \<Rightarrow> Some (Inl e)
                  | Inr st \<Rightarrow> encodeRegion x (y + goDiv h 2) w (h - goDiv h 2) params leafLocal pattern st) = Some (Inr (bw', lp', pp'))"
          unfolding bind_eq_Some_conv by blast
        show ?thesis
        proof (cases r1)
          case (Inl e)
          with b show ?thesis by simp
        next
          case (Inr st)
          obtain bwa lpa ppa where st: "st = (bwa, lpa, ppa)" by (cases st)
          from a b show ?thesis unfolding Inr st sum.case by (rule that)
        qed
      qed
      have m1: "length pattern - Suc pp < length pattern - pp" using pplt by simp
      from less.hyps [OF m1 e1 ok1]
      obtain t1 where c1: "(drop (Suc pp) pattern = shape t1 @ drop pp2 pattern
       \<and> pp2 = (Suc pp) + length (shape t1)
       \<and> drop lp leafLocal = leavesOf t1 @ drop lp2 leafLocal
       \<and> lp2 = lp + length (leavesOf t1)
       \<and> writerOK bw2
       \<and> writerBits bw2 = writerBits bw1 @ wire t1)
       \<and> (\<forall>br cnt jobs rest. readerOK br \<longrightarrow> readerBits br = wire t1 @ rest \<longrightarrow> 0 \<le> cnt
              \<longrightarrow> validPal palettes cnt (leavesOf t1)
              \<longrightarrow> (\<exists>br' js. decodeRegionJobs x y w (goDiv h 2) params palettes (br, cnt, jobs) =
                             Some (Inr (br', cnt + int (length (leavesOf t1)), jobs @ js))
                    \<and> readerOK br' \<and> readerBits br' = rest
                    \<and> map jidx js = map uint (leavesOf t1)
                    \<and> map jpal js = map (\<lambda>k. (cnt + int k) div 256) [0..<length (leavesOf t1)]))" ..
      note d1 = c1 [THEN conjunct2]
      from c1 [THEN conjunct1] have t1: "drop (Suc pp) pattern = shape t1 @ drop pp2 pattern" "pp2 = (Suc pp) + length (shape t1)" "drop lp leafLocal = leavesOf t1 @ drop lp2 leafLocal" "lp2 = lp + length (leavesOf t1)" "writerOK bw2" "writerBits bw2 = writerBits bw1 @ wire t1"
        by blast+
      have m2: "length pattern - pp2 < length pattern - pp" using pplt t1(2) by simp
      from less.hyps [OF m2 e2 t1(5)]
      obtain t2 where c2: "(drop pp2 pattern = shape t2 @ drop pp' pattern
       \<and> pp' = pp2 + length (shape t2)
       \<and> drop lp2 leafLocal = leavesOf t2 @ drop lp' leafLocal
       \<and> lp' = lp2 + length (leavesOf t2)
       \<and> writerOK bw'
       \<and> writerBits bw' = writerBits bw2 @ wire t2)
       \<and> (\<forall>br cnt jobs rest. readerOK br \<longrightarrow> readerBits br = wire t2 @ rest \<longrightarrow> 0 \<le> cnt
              \<longrightarrow> validPal palettes cnt (leavesOf t2)
              \<longrightarrow> (\<exists>br' js. decodeRegionJobs x (y + goDiv h 2) w (h - goDiv h 2) params palettes (br, cnt, jobs) =
                             Some (Inr (br', cnt + int (length (leavesOf t2)), jobs @ js))
                    \<and> readerOK br' \<and> readerBits br' = rest
                    \<and> map jidx js = map uint (leavesOf t2)
                    \<and> map jpal js = map (\<lambda>k. (cnt + int k) div 256) [0..<length (leavesOf t2)]))" ..
      note d2 = c2 [THEN conjunct2]
      from c2 [THEN conjunct1] have t2: "drop pp2 pattern = shape t2 @ drop pp' pattern" "pp' = pp2 + length (shape t2)" "drop lp2 leafLocal = leavesOf t2 @ drop lp' leafLocal" "lp' = lp2 + length (leavesOf t2)" "writerOK bw'" "writerBits bw' = writerBits bw2 @ wire t2"
        by blast+
      let ?t = "WNode t1 t2"
      have hd: "drop pp pattern = False # drop (Suc pp) pattern"
        using Cons_nth_drop_Suc [OF pplt] node by simp
      have A1: "drop pp pattern = shape ?t @ drop pp' pattern"
        unfolding hd t1(1) t2(1) by simp
      have A2: "pp' = pp + length (shape ?t)"
        unfolding t2(2) t1(2) by simp
      have A3: "drop lp leafLocal = leavesOf ?t @ drop lp' leafLocal"
        unfolding t1(3) t2(3) by simp
      have A4: "lp' = lp + length (leavesOf ?t)"
        unfolding t2(4) t1(4) by simp
      have A6: "writerBits bw' = writerBits bw @ wire ?t"
        unfolding t2(6) t1(6) bits1 by simp
      have B: "(\<forall>br cnt jobs rest. readerOK br \<longrightarrow> readerBits br = wire ?t @ rest \<longrightarrow> 0 \<le> cnt
              \<longrightarrow> validPal palettes cnt (leavesOf ?t)
              \<longrightarrow> (\<exists>br' js. decodeRegionJobs x y w h params palettes (br, cnt, jobs) =
                             Some (Inr (br', cnt + int (length (leavesOf ?t)), jobs @ js))
                    \<and> readerOK br' \<and> readerBits br' = rest
                    \<and> map jidx js = map uint (leavesOf ?t)
                    \<and> map jpal js = map (\<lambda>k. (cnt + int k) div 256) [0..<length (leavesOf ?t)]))"
      proof (intro allI impI)
        fix br cnt jobs rest
        assume rb: "readerOK br" "readerBits br = wire ?t @ rest" "0 \<le> cnt"
            "validPal palettes cnt (leavesOf ?t)"
        have "readerBits br = False # (wire t1 @ wire t2 @ rest)" using rb(2) by simp
        from decode_node_step [OF rb(1) this, of h w params x y palettes cnt jobs]
        obtain br1 where b1: "readerOK br1" "readerBits br1 = wire t1 @ wire t2 @ rest"
            and red: "decodeRegionJobs x y w h params palettes (br, cnt, jobs) =
              Option.bind (decodeRegionJobs x y w (goDiv h 2) params palettes (br1, cnt, jobs))
                (\<lambda>r. case r of Inl e \<Rightarrow> Some (Inl e)
                      | Inr st \<Rightarrow> decodeRegionJobs x (y + goDiv h 2) w (h - goDiv h 2) params palettes st)"
          using cw hpos by blast
        have v: "validPal palettes cnt (leavesOf t1 @ leavesOf t2)" using rb(4) by simp
        from decode_compose [where ?D1.0 = "decodeRegionJobs x y w (goDiv h 2) params palettes"
              and ?D2.0 = "decodeRegionJobs x (y + goDiv h 2) w (h - goDiv h 2) params palettes"
              and ?t1.0 = t1 and ?t2.0 = t2 and palettes = palettes,
              OF d1 [rule_format] d2 [rule_format] b1 rb(3) v, of jobs]
        show "\<exists>br' js. decodeRegionJobs x y w h params palettes (br, cnt, jobs) =
                             Some (Inr (br', cnt + int (length (leavesOf ?t)), jobs @ js))
                    \<and> readerOK br' \<and> readerBits br' = rest
                    \<and> map jidx js = map uint (leavesOf ?t)
                    \<and> map jpal js = map (\<lambda>k. (cnt + int k) div 256) [0..<length (leavesOf ?t)]"
          unfolding red leavesOf.simps .
      qed
      show ?thesis
        by (rule exI [of _ ?t]) (intro conjI A1 A2 A3 A4 t2(5) A6 B)

    qed
  qed
qed

lemma NewBitWriter_bits:
  "writerOK (NewBitWriter raw) \<and> writerBits (NewBitWriter raw) = concat (map bitsOfByte raw)"
  by (simp add: NewBitWriter_def writerOK_def writerBits_def)

lemma NewBitReader_bits:
  "readerOK (NewBitReaderFromBytes bs) \<and> readerBits (NewBitReaderFromBytes bs) = concat (map bitsOfByte bs)"
  by (simp add: NewBitReaderFromBytes_def readerOK_def readerBits_def length_bitsOfByte)

lemma Flush_bits:
  assumes "writerOK bw"
  shows "concat (map bitsOfByte (wbuf (Flush bw))) =
           writerBits bw @ replicate ((8 - wnbit bw) mod 8) False"
proof (cases "wnbit bw = 0")
  case True
  then show ?thesis by (simp add: Flush_def writerBits_def)
next
  case False
  define n where "n = wnbit bw"
  have n: "0 < n" "n < 8" and z: "\<And>k. k < 8 - n \<Longrightarrow> \<not> bit (wacc bw) k"
    using assms False by (auto simp: writerOK_def n_def)
  have "drop n (bitsOfByte (wacc bw)) = map (\<lambda>i. False) [n..<8]"
    unfolding drop_bitsOfByte
  proof (rule map_cong [OF refl])
    fix i assume "i \<in> set [n..<8]"
    then have "7 - i < 8 - n" by auto
    then show "bit (wacc bw) (7 - i) = False" using z by simp
  qed
  then have d: "drop n (bitsOfByte (wacc bw)) = replicate (8 - n) False"
    by (simp add: map_replicate_const)
  have "bitsOfByte (wacc bw) = take n (bitsOfByte (wacc bw)) @ drop n (bitsOfByte (wacc bw))"
    by simp
  then have "bitsOfByte (wacc bw) = take n (bitsOfByte (wacc bw)) @ replicate (8 - n) False"
    unfolding d .
  moreover have "(8 - n) mod 8 = 8 - n" using n by simp
  ultimately show ?thesis
    using False by (simp add: Flush_def writerBits_def n_def)
qed

text \<open>
  C6.  A successful call of \<^verbatim>\<open>encodeRegion\<close> walks a tree \<open>t\<close>: it consumes the structure bits
  of \<open>t\<close> from the pattern and the leaf indices of \<open>t\<close> from \<^verbatim>\<open>leafLocal\<close>, and the bits it
  appends to the writer are \<open>wire t\<close>: for every node one structure bit, \<open>True\<close> for a leaf and
  \<open>False\<close> for an internal node, a leaf bit followed by the eight bits of the local index,
  an internal bit followed by the two subtrees; \<open>wire t\<close> holds nothing of the position,
  the size or the split axis of a region.  \<^verbatim>\<open>decodeRegionJobs\<close>, called on the same region
  with a reader that stands at these bits, consumes exactly \<open>wire t\<close> and appends one job
  per leaf, in the same order, with the local index read and the palette number equal to
  the leaf counter divided by 256 (provided the two range checks pass, without which it
  returns an error).  \<^verbatim>\<open>minBlock\<close> is 1 for every quality.
\<close>

theorem region_bits_follow_grammar:
  assumes "encodeRegion x y w h params leafLocal pattern (bw, leafPos, patPos)
             = Some (Inr (bw', leafPos', patPos'))"
      and "writerOK bw" and "1 \<le> minBlock params"
  shows "\<exists>t. (drop patPos pattern = shape t @ drop patPos' pattern
             \<and> patPos' = patPos + length (shape t)
             \<and> drop leafPos leafLocal = leavesOf t @ drop leafPos' leafLocal
             \<and> leafPos' = leafPos + length (leavesOf t)
             \<and> writerOK bw'
             \<and> writerBits bw' = writerBits bw @ wire t)
          \<and> (\<forall>br cnt jobs rest. readerOK br \<longrightarrow> readerBits br = wire t @ rest \<longrightarrow> 0 \<le> cnt
              \<longrightarrow> validPal palettes cnt (leavesOf t)
              \<longrightarrow> (\<exists>br' js. decodeRegionJobs x y w h params palettes (br, cnt, jobs) =
                             Some (Inr (br', cnt + int (length (leavesOf t)), jobs @ js))
                    \<and> readerOK br' \<and> readerBits br' = rest
                    \<and> map jidx js = map uint (leavesOf t)
                    \<and> map jpal js = map (\<lambda>k. (cnt + int k) div 256) [0..<length (leavesOf t)]))"
  using assms(3) assms(1) assms(2) by (rule region_core)

theorem region_bits_follow_grammar_witness:
  "encodeRegion 0 0 2 1 (paramsForQuality 100) [3, 5] [False, True, True] (NewBitWriter [], 0, 0)
      = Some (Inr (\<lparr>wbuf = [64, 224], wacc = 160, wnbit = 3\<rparr>, 2, 3))
   \<and> writerOK (NewBitWriter [])
   \<and> 1 \<le> minBlock (paramsForQuality 100)
   \<and> (\<exists>t. shape t = [False, True, True] \<and> leavesOf t = [3, 5]
          \<and> wire t = writerBits \<lparr>wbuf = [64, 224], wacc = 160, wnbit = 3\<rparr>)
   \<and> wbuf (Flush \<lparr>wbuf = [64, 224], wacc = 160, wnbit = 3\<rparr>) = [64, 224, 160]
   \<and> (\<exists>br' js. decodeRegionJobs 0 0 2 1 (paramsForQuality 100)
                  [replicate 6 (RGBA 0 0 0 255)] (NewBitReaderFromBytes [64, 224, 160], 0, [])
                = Some (Inr (br', 2, js))
              \<and> map jidx js = [3, 5] \<and> map jpal js = [0, 0])"
proof -
  let ?bw = "\<lparr>wbuf = [64, 224], wacc = 160, wnbit = 3\<rparr>"
  let ?pals = "[replicate 6 (RGBA 0 0 0 255)]"
  have e: "encodeRegion 0 0 2 1 (paramsForQuality 100) [3, 5] [False, True, True] (NewBitWriter [], 0, 0)
      = Some (Inr (?bw, 2, 3))"
    by code_simp
  have ok: "writerOK (NewBitWriter [])" by (simp add: NewBitWriter_bits)
  have mb: "1 \<le> minBlock (paramsForQuality 100)" by (simp add: paramsForQuality_def)
  have f: "wbuf (Flush ?bw) = [64, 224, 160]" by (simp add: Flush_def)
  from region_bits_follow_grammar [OF e ok mb, of ?pals]
  obtain t where t: "drop 0 [False, True, True] = shape t @ drop 3 [False, True, True]"
      "drop 0 [3, 5] = leavesOf t @ drop 2 [3, 5 :: byte]"
      "writerBits ?bw = writerBits (NewBitWriter []) @ wire t" "writerOK ?bw"
    and d: "\<forall>br cnt jobs rest. readerOK br \<longrightarrow> readerBits br = wire t @ rest \<longrightarrow> 0 \<le> cnt
              \<longrightarrow> validPal ?pals cnt (leavesOf t)
              \<longrightarrow> (\<exists>br' js. decodeRegionJobs 0 0 2 1 (paramsForQuality 100) ?pals (br, cnt, jobs) =
                             Some (Inr (br', cnt + int (length (leavesOf t)), jobs @ js))
                    \<and> readerOK br' \<and> readerBits br' = rest
                    \<and> map jidx js = map uint (leavesOf t)
                    \<and> map jpal js = map (\<lambda>k. (cnt + int k) div 256) [0..<length (leavesOf t)])"
    by blast
  have s: "shape t = [False, True, True]" and l: "leavesOf t = [3, 5]"
    using t(1,2) by simp_all
  have w: "wire t = writerBits ?bw" using t(3) by (simp add: NewBitWriter_bits)
  have rb: "readerBits (NewBitReaderFromBytes [64, 224, 160]) = writerBits ?bw @ replicate 5 False"
    using Flush_bits [OF t(4)] by (simp add: NewBitReader_bits f)
  have v: "validPal ?pals 0 [3, 5]" by (simp add: validPal_def)
  have pre: "readerOK (NewBitReaderFromBytes [64, 224, 160])"
      "readerBits (NewBitReaderFromBytes [64, 224, 160]) = wire t @ replicate 5 False"
      "(0::int) \<le> 0" "validPal ?pals 0 (leavesOf t)"
    using rb v by (simp_all add: NewBitReader_bits w l)
  from d [rule_format, OF pre, of "[]"]
  obtain br' js where r: "decodeRegionJobs 0 0 2 1 (paramsForQuality 100) ?pals
        (NewBitReaderFromBytes [64, 224, 160], 0, []) = Some (Inr (br', 0 + int (length (leavesOf t)), [] @ js))"
      "map jidx js = map uint (leavesOf t)"
      "map jpal js = map (\<lambda>k. (0 + int k) div 256) [0..<length (leavesOf t)]"
    by blast
  have "decodeRegionJobs 0 0 2 1 (paramsForQuality 100) ?pals
        (NewBitReaderFromBytes [64, 224, 160], 0, []) = Some (Inr (br', 2, js))"
      "map jidx js = [3, 5]" "map jpal js = [0, 0]"
    using r by (simp_all add: l upt_rec)
  then have x: "\<exists>br' js. decodeRegionJobs 0 0 2 1 (paramsForQuality 100) ?pals
                  (NewBitReaderFromBytes [64, 224, 160], 0, []) = Some (Inr (br', 2, js))
              \<and> map jidx js = [3, 5] \<and> map jpal js = [0, 0]"
    by (intro exI [of _ br'] exI [of _ js] conjI)
  have y: "\<exists>t. shape t = [False, True, True] \<and> leavesOf t = [3, 5] \<and> wire t = writerBits ?bw"
    using s l w by (intro exI [of _ t] conjI)
  from e ok mb y f x show ?thesis by (intro conjI)
qed

end
